theory Spec2Isabelle
  imports Main
begin

section \<open>Request bundle detection\<close>

text \<open>
  A call is the tuple \<open>(time, from_service, to_service, endpoint)\<close>; a pipeline is a list
  of calls in chronological order. The time stamp is never inspected by the detector.
  The \<open>user\<close> argument of the three detectors is only interpolated into the printed
  notification lines, which do not influence any returned collection; the embedding
  leaves the label and the printing out.
\<close>

type_synonym datetime = nat
type_synonym call = "datetime \<times> string \<times> string \<times> string"

datatype error = TypeError | AttributeError | NetworkXError

text \<open>The local variables of \<open>detect_request_bundle\<close>. \<open>None\<close> is Python's \<open>None\<close>.\<close>

record bundle_state =
  bundles_service :: "(string \<times> string \<times> int) list"
  bundles_endpoint :: "(string \<times> string \<times> string \<times> int) list"
  last_call_service :: "(string \<times> string) option"
  last_call_endpoint :: "(string \<times> string \<times> string) option"
  count_service :: int
  count_endpoint :: int

definition bundle_init :: bundle_state where
  "bundle_init =
     \<lparr>bundles_service = [], bundles_endpoint = [],
      last_call_service = None, last_call_endpoint = None,
      count_service = 1, count_endpoint = 1\<rparr>"

text \<open>
  First half of the loop body (service level). Unpacking \<open>*last_call_service\<close> while the
  variable still holds \<open>None\<close> raises \<open>TypeError\<close> before anything is appended.
\<close>

definition service_part :: "int \<Rightarrow> bundle_state \<Rightarrow> string \<times> string \<Rightarrow> error + bundle_state" where
  "service_part threshold_service s current_call_service =
     (if Some current_call_service = last_call_service s
      then Inr (s\<lparr>count_service := count_service s + 1\<rparr>)
      else
        (case
           (if count_service s \<ge> threshold_service
            then (case last_call_service s of
                    None \<Rightarrow> Inl TypeError
                  | Some (a, b) \<Rightarrow>
                      Inr (s\<lparr>bundles_service := bundles_service s @ [(a, b, count_service s)]\<rparr>))
            else Inr s)
         of Inl e \<Rightarrow> Inl e
          | Inr s' \<Rightarrow>
              Inr (s'\<lparr>count_service := 1, last_call_service := Some current_call_service\<rparr>)))"

text \<open>Second half of the loop body (endpoint level).\<close>

definition endpoint_part ::
  "int \<Rightarrow> bundle_state \<Rightarrow> string \<times> string \<times> string \<Rightarrow> error + bundle_state" where
  "endpoint_part threshold_endpoint s current_call_endpoint =
     (if Some current_call_endpoint = last_call_endpoint s
      then Inr (s\<lparr>count_endpoint := count_endpoint s + 1\<rparr>)
      else
        (case
           (if count_endpoint s \<ge> threshold_endpoint
            then (case last_call_endpoint s of
                    None \<Rightarrow> Inl TypeError
                  | Some (a, b, c) \<Rightarrow>
                      Inr (s\<lparr>bundles_endpoint :=
                                bundles_endpoint s @ [(a, b, c, count_endpoint s)]\<rparr>))
            else Inr s)
         of Inl e \<Rightarrow> Inl e
          | Inr s' \<Rightarrow>
              Inr (s'\<lparr>count_endpoint := 1, last_call_endpoint := Some current_call_endpoint\<rparr>)))"

definition service_key :: "call \<Rightarrow> string \<times> string" where
  "service_key c = (case c of (time, from_service, to_service, endpoint) \<Rightarrow>
     (from_service, to_service))"

definition endpoint_key :: "call \<Rightarrow> string \<times> string \<times> string" where
  "endpoint_key c = (case c of (time, from_service, to_service, endpoint) \<Rightarrow>
     (from_service, to_service, endpoint))"

definition bundle_step :: "int \<Rightarrow> int \<Rightarrow> bundle_state \<Rightarrow> call \<Rightarrow> error + bundle_state" where
  "bundle_step threshold_service threshold_endpoint s c =
     (case service_part threshold_service s (service_key c) of
        Inl e \<Rightarrow> Inl e
      | Inr s' \<Rightarrow> endpoint_part threshold_endpoint s' (endpoint_key c))"

fun bundle_loop :: "int \<Rightarrow> int \<Rightarrow> bundle_state \<Rightarrow> call list \<Rightarrow> error + bundle_state" where
  "bundle_loop threshold_service threshold_endpoint s [] = Inr s"
| "bundle_loop threshold_service threshold_endpoint s (c # cs) =
     (case bundle_step threshold_service threshold_endpoint s c of
        Inl e \<Rightarrow> Inl e
      | Inr s' \<Rightarrow> bundle_loop threshold_service threshold_endpoint s' cs)"

definition detect_request_bundle ::
  "call list \<Rightarrow> int \<Rightarrow> int \<Rightarrow>
     error + ((string \<times> string \<times> int) list \<times> (string \<times> string \<times> string \<times> int) list)" where
  "detect_request_bundle pipeline threshold_service threshold_endpoint =
     (case bundle_loop threshold_service threshold_endpoint bundle_init pipeline of
        Inl e \<Rightarrow> Inl e
      | Inr s \<Rightarrow> Inr (bundles_service s, bundles_endpoint s))"

text \<open>
  Run-length encoding of a key sequence: the maximal runs of consecutive identical keys,
  each with its length. This is the specification's notion of a run; it knows nothing of
  thresholds or of the loop's sentinel.
\<close>

fun runs_from :: "'k \<Rightarrow> int \<Rightarrow> 'k list \<Rightarrow> ('k \<times> int) list" where
  "runs_from k n [] = [(k, n)]"
| "runs_from k n (x # xs) =
     (if x = k then runs_from k (n + 1) xs else (k, n) # runs_from x 1 xs)"

fun runs :: "'k list \<Rightarrow> ('k \<times> int) list" where
  "runs [] = []"
| "runs (x # xs) = runs_from x 1 xs"

definition service_findings ::
  "int \<Rightarrow> ((string \<times> string) \<times> int) list \<Rightarrow> (string \<times> string \<times> int) list" where
  "service_findings th rs =
     map (\<lambda>((a, b), n). (a, b, n)) (filter (\<lambda>(k, n). n \<ge> th) rs)"

definition endpoint_findings ::
  "int \<Rightarrow> ((string \<times> string \<times> string) \<times> int) list \<Rightarrow> (string \<times> string \<times> string \<times> int) list" where
  "endpoint_findings th rs =
     map (\<lambda>((a, b, c), n). (a, b, c, n)) (filter (\<lambda>(k, n). n \<ge> th) rs)"

section \<open>Call graphs\<close>

text \<open>
  Modelled from the spec: the graph library (networkx) is not part of the sources. The
  spec describes the call graph as a directed multigraph over service names whose
  detectors work on a simplified directed graph with parallel edges collapsed, queried
  through four capabilities: in-degree, out-degree, predecessor set and successor set,
  with the standard directed-graph degrees (a self-loop counts once in each).

  A multigraph is its explicitly added nodes and its edges \<open>(u, v, key)\<close>; adding an
  edge adds both end points as nodes, so the nodes of the graph are the explicit ones
  together with every end point.
\<close>

record multidigraph =
  node_list :: "string list"
  edge_list :: "(string \<times> string \<times> string) list"

text \<open>
  The simplified graph \<open>D = nx.DiGraph(G)\<close>: its nodes in iteration order and, for each
  node, the keys of its successor and predecessor adjacency dictionaries.
\<close>

record digraph =
  nodes :: "string list"
  succ :: "string \<Rightarrow> string list"
  pred :: "string \<Rightarrow> string list"

text \<open>
  Modelled from the spec: the conversion collapses parallel edges and keeps every node;
  the degrees are the sizes of the predecessor and successor sets.
\<close>

definition DiGraph :: "multidigraph \<Rightarrow> digraph" where
  "DiGraph G =
     \<lparr>nodes = remdups (node_list G @ concat (map (\<lambda>(u, v, k). [u, v]) (edge_list G))),
      succ = (\<lambda>n. remdups (map (\<lambda>(u, v, k). v) (filter (\<lambda>(u, v, k). u = n) (edge_list G)))),
      pred = (\<lambda>n. remdups (map (\<lambda>(u, v, k). u) (filter (\<lambda>(u, v, k). v = n) (edge_list G))))\<rparr>"

definition in_degree :: "digraph \<Rightarrow> string \<Rightarrow> int" where
  "in_degree D n = int (length (pred D n))"

definition out_degree :: "digraph \<Rightarrow> string \<Rightarrow> int" where
  "out_degree D n = int (length (succ D n))"

text \<open>An optional set argument: \<open>if x is None: x = set()\<close>.\<close>

definition set_or_empty :: "'a set option \<Rightarrow> 'a set" where
  "set_or_empty x = (case x of None \<Rightarrow> {} | Some s \<Rightarrow> s)"

section \<open>Frontend integration detection\<close>

text \<open>The body of the loop over \<open>D.in_degree()\<close>, on the two result sets.\<close>

definition frontend_step ::
  "digraph \<Rightarrow> string set \<Rightarrow> string set \<times> string set \<Rightarrow> string \<Rightarrow> string set \<times> string set" where
  "frontend_step D frontend_services st node =
     (case st of (frontend_candidates, frontend_violators) \<Rightarrow>
        if in_degree D node = 0
        then (if out_degree D node > 0
              then (insert node frontend_candidates, frontend_violators)
              else (frontend_candidates, frontend_violators))
        else if node \<in> frontend_services
        then (frontend_candidates, insert node frontend_violators)
        else (frontend_candidates, frontend_violators))"

definition detect_frontend_integration ::
  "multidigraph \<Rightarrow> string set option \<Rightarrow> string set \<times> string set" where
  "detect_frontend_integration G frontend_services =
     (let frontend_services = set_or_empty frontend_services;
          D = DiGraph G
      in foldl (frontend_step D frontend_services) ({}, {}) (nodes D))"

section \<open>Information holder resource detection\<close>

record ihr_state =
  ihr_candidates :: "(string \<times> string) set"
  ihr_violators :: "(string \<times> string) set"
  database_call_violators :: "string set"
  database_no_ihr_violators :: "string set"

text \<open>The body of the loop over \<open>D.out_degree()\<close>.\<close>

definition ihr_step :: "digraph \<Rightarrow> string set \<Rightarrow> ihr_state \<Rightarrow> string \<Rightarrow> ihr_state" where
  "ihr_step D database_services s node =
     (let zero_degree = (out_degree D node = 0);
          is_database = (node \<in> database_services);
          s1 = (if zero_degree \<or> is_database
                then (case pred D node of
                        [p] \<Rightarrow>
                          (let s' = (if length (succ D p) = 1
                                     then s\<lparr>ihr_candidates := insert (p, node) (ihr_candidates s)\<rparr>
                                     else s\<lparr>ihr_violators := insert (p, node) (ihr_violators s)\<rparr>)
                           in s'\<lparr>database_no_ihr_violators :=
                                   database_no_ihr_violators s' - {node}\<rparr>)
                      | _ \<Rightarrow> s)
                else s)
      in if \<not> zero_degree \<and> is_database
         then s1\<lparr>database_call_violators := insert node (database_call_violators s1)\<rparr>
         else s1)"

definition detect_information_holder_resource ::
  "multidigraph \<Rightarrow> string set option \<Rightarrow>
     (string \<times> string) set \<times> (string \<times> string) set \<times> string set \<times> string set" where
  "detect_information_holder_resource G database_services =
     (let database_services = set_or_empty database_services;
          D = DiGraph G;
          s = foldl (ihr_step D database_services)
                \<lparr>ihr_candidates = {}, ihr_violators = {}, database_call_violators = {},
                 database_no_ihr_violators = database_services\<rparr>
                (nodes D)
      in (ihr_candidates s, ihr_violators s, database_call_violators s,
          database_no_ihr_violators s))"

text \<open>Example graphs used to instantiate the theorems below.\<close>

definition frontend_example :: multidigraph where
  "frontend_example =
     \<lparr>node_list = [''I''],
      edge_list = [(''X'', ''Y'', ''a''), (''X'', ''Z'', ''a''), (''W'', ''Y'', ''b''),
                   (''W'', ''Y'', ''c'')]\<rparr>"

definition ihr_example :: multidigraph where
  "ihr_example =
     \<lparr>node_list = [''Z''],
      edge_list = [(''P'', ''S'', ''a''), (''P'', ''S'', ''b''), (''Q'', ''T'', ''a''),
                   (''Q'', ''U'', ''a''), (''T'', ''V'', ''a'')]\<rparr>"

section \<open>The detectors on a heap of objects\<close>

text \<open>
  Python passes references. To speak about what a detector does to the objects its caller
  handed in, the three detectors are embedded a second time over an explicit heap: a list
  of objects addressed by position. Creating an object (\<open>[]\<close>, \<open>set()\<close>, \<open>.copy()\<close>,
  \<open>nx.DiGraph(G)\<close>) appends a cell; \<open>.append\<close>, \<open>.add\<close> and \<open>.discard\<close> overwrite the cell
  of the object they are called on. An operation on an object of the wrong kind raises.
\<close>

datatype obj =
    Pipeline "call list"
  | ServiceBundles "(string \<times> string \<times> int) list"
  | EndpointBundles "(string \<times> string \<times> string \<times> int) list"
  | NodeSet "string set"
  | PairSet "(string \<times> string) set"
  | MultiDiGraphObj multidigraph
  | DiGraphObj digraph

type_synonym heap = "obj list"

definition lookup :: "heap \<Rightarrow> nat \<Rightarrow> obj option" where
  "lookup h r = (if r < length h then Some (h ! r) else None)"

definition alloc :: "heap \<Rightarrow> obj \<Rightarrow> heap \<times> nat" where
  "alloc h v = (h @ [v], length h)"

text \<open>Sequencing: a raised error stops the rest, with the state as it is then.\<close>

definition then_h :: "'s \<times> error option \<Rightarrow> ('s \<Rightarrow> 's \<times> error option) \<Rightarrow> 's \<times> error option" where
  "then_h r k = (case r of (s, None) \<Rightarrow> k s | (s, Some e) \<Rightarrow> (s, Some e))"

definition append_service :: "nat \<Rightarrow> string \<times> string \<times> int \<Rightarrow> heap \<Rightarrow> heap \<times> error option" where
  "append_service r x h =
     (case lookup h r of
        Some (ServiceBundles xs) \<Rightarrow> (h[r := ServiceBundles (xs @ [x])], None)
      | _ \<Rightarrow> (h, Some AttributeError))"

definition append_endpoint ::
  "nat \<Rightarrow> string \<times> string \<times> string \<times> int \<Rightarrow> heap \<Rightarrow> heap \<times> error option" where
  "append_endpoint r x h =
     (case lookup h r of
        Some (EndpointBundles xs) \<Rightarrow> (h[r := EndpointBundles (xs @ [x])], None)
      | _ \<Rightarrow> (h, Some AttributeError))"

definition set_add :: "nat \<Rightarrow> string \<Rightarrow> heap \<Rightarrow> heap \<times> error option" where
  "set_add r x h =
     (case lookup h r of
        Some (NodeSet S) \<Rightarrow> (h[r := NodeSet (insert x S)], None)
      | _ \<Rightarrow> (h, Some AttributeError))"

definition set_discard :: "nat \<Rightarrow> string \<Rightarrow> heap \<Rightarrow> heap \<times> error option" where
  "set_discard r x h =
     (case lookup h r of
        Some (NodeSet S) \<Rightarrow> (h[r := NodeSet (S - {x})], None)
      | _ \<Rightarrow> (h, Some AttributeError))"

definition pair_add :: "nat \<Rightarrow> string \<times> string \<Rightarrow> heap \<Rightarrow> heap \<times> error option" where
  "pair_add r x h =
     (case lookup h r of
        Some (PairSet S) \<Rightarrow> (h[r := PairSet (insert x S)], None)
      | _ \<Rightarrow> (h, Some AttributeError))"

text \<open>\<open>x in s\<close> for a set object \<open>s\<close>.\<close>

definition set_contains :: "heap \<Rightarrow> nat \<Rightarrow> string \<Rightarrow> error + bool" where
  "set_contains h r x =
     (case lookup h r of Some (NodeSet S) \<Rightarrow> Inr (x \<in> S) | _ \<Rightarrow> Inl TypeError)"

text \<open>An optional set argument: \<open>None\<close> is replaced by a new empty set object.\<close>

definition set_or_new :: "heap \<Rightarrow> nat option \<Rightarrow> heap \<times> nat" where
  "set_or_new h x = (case x of None \<Rightarrow> alloc h (NodeSet {}) | Some r \<Rightarrow> (h, r))"

subsection \<open>Request bundles\<close>

text \<open>
  The variables of \<open>detect_request_bundle\<close> that hold values; the two result lists are
  objects on the heap, known by their references. The pipeline is only iterated, so its
  calls are taken from the heap when the loop starts.
\<close>

record bundle_locals =
  l_last_call_service :: "(string \<times> string) option"
  l_last_call_endpoint :: "(string \<times> string \<times> string) option"
  l_count_service :: int
  l_count_endpoint :: int

definition service_part_h ::
  "int \<Rightarrow> nat \<Rightarrow> string \<times> string \<Rightarrow> heap \<times> bundle_locals \<Rightarrow>
     (heap \<times> bundle_locals) \<times> error option" where
  "service_part_h threshold_service bundles_service_ref current_call_service st =
     (case st of (h, l) \<Rightarrow>
        if Some current_call_service = l_last_call_service l
        then ((h, l\<lparr>l_count_service := l_count_service l + 1\<rparr>), None)
        else
          then_h
            (if l_count_service l \<ge> threshold_service
             then (case l_last_call_service l of
                     None \<Rightarrow> ((h, l), Some TypeError)
                   | Some (a, b) \<Rightarrow>
                       (case append_service bundles_service_ref (a, b, l_count_service l) h of
                          (h', e) \<Rightarrow> ((h', l), e)))
             else ((h, l), None))
            (\<lambda>(h', l'). ((h', l'\<lparr>l_count_service := 1,
                                  l_last_call_service := Some current_call_service\<rparr>), None)))"

definition endpoint_part_h ::
  "int \<Rightarrow> nat \<Rightarrow> string \<times> string \<times> string \<Rightarrow> heap \<times> bundle_locals \<Rightarrow>
     (heap \<times> bundle_locals) \<times> error option" where
  "endpoint_part_h threshold_endpoint bundles_endpoint_ref current_call_endpoint st =
     (case st of (h, l) \<Rightarrow>
        if Some current_call_endpoint = l_last_call_endpoint l
        then ((h, l\<lparr>l_count_endpoint := l_count_endpoint l + 1\<rparr>), None)
        else
          then_h
            (if l_count_endpoint l \<ge> threshold_endpoint
             then (case l_last_call_endpoint l of
                     None \<Rightarrow> ((h, l), Some TypeError)
                   | Some (a, b, c) \<Rightarrow>
                       (case append_endpoint bundles_endpoint_ref (a, b, c, l_count_endpoint l) h of
                          (h', e) \<Rightarrow> ((h', l), e)))
             else ((h, l), None))
            (\<lambda>(h', l'). ((h', l'\<lparr>l_count_endpoint := 1,
                                  l_last_call_endpoint := Some current_call_endpoint\<rparr>), None)))"

definition bundle_step_h ::
  "int \<Rightarrow> int \<Rightarrow> nat \<Rightarrow> nat \<Rightarrow> heap \<times> bundle_locals \<Rightarrow> call \<Rightarrow>
     (heap \<times> bundle_locals) \<times> error option" where
  "bundle_step_h threshold_service threshold_endpoint bundles_service_ref bundles_endpoint_ref st c =
     then_h (service_part_h threshold_service bundles_service_ref (service_key c) st)
       (endpoint_part_h threshold_endpoint bundles_endpoint_ref (endpoint_key c))"

fun bundle_loop_h ::
  "int \<Rightarrow> int \<Rightarrow> nat \<Rightarrow> nat \<Rightarrow> heap \<times> bundle_locals \<Rightarrow> call list \<Rightarrow>
     (heap \<times> bundle_locals) \<times> error option" where
  "bundle_loop_h ts te bs be st [] = (st, None)"
| "bundle_loop_h ts te bs be st (c # cs) =
     then_h (bundle_step_h ts te bs be st c) (\<lambda>st'. bundle_loop_h ts te bs be st' cs)"

definition detect_request_bundle_h ::
  "heap \<Rightarrow> nat \<Rightarrow> int \<Rightarrow> int \<Rightarrow> heap \<times> (error + nat \<times> nat)" where
  "detect_request_bundle_h h pipeline threshold_service threshold_endpoint =
     (case alloc h (ServiceBundles []) of (h1, bundles_service_ref) \<Rightarrow>
      case alloc h1 (EndpointBundles []) of (h2, bundles_endpoint_ref) \<Rightarrow>
      case lookup h2 pipeline of
        Some (Pipeline p) \<Rightarrow>
          (case bundle_loop_h threshold_service threshold_endpoint bundles_service_ref
                  bundles_endpoint_ref
                  (h2, \<lparr>l_last_call_service = None, l_last_call_endpoint = None,
                        l_count_service = 1, l_count_endpoint = 1\<rparr>) p of
             ((h3, l), Some e) \<Rightarrow> (h3, Inl e)
           | ((h3, l), None) \<Rightarrow> (h3, Inr (bundles_service_ref, bundles_endpoint_ref)))
      | _ \<Rightarrow> (h2, Inl TypeError))"

subsection \<open>Frontend integration\<close>

text \<open>
  Both graph detectors build \<open>D\<close> once, as a new object, and afterwards only read it; the
  loops take its nodes and adjacency from the value built. The declared service set is
  consulted on the heap at every membership test.
\<close>

definition frontend_step_h ::
  "digraph \<Rightarrow> nat \<Rightarrow> nat \<Rightarrow> nat \<Rightarrow> heap \<Rightarrow> string \<Rightarrow> heap \<times> error option" where
  "frontend_step_h D frontend_services frontend_candidates frontend_violators h node =
     (if in_degree D node = 0
      then (if out_degree D node > 0 then set_add frontend_candidates node h else (h, None))
      else (case set_contains h frontend_services node of
              Inl e \<Rightarrow> (h, Some e)
            | Inr True \<Rightarrow> set_add frontend_violators node h
            | Inr False \<Rightarrow> (h, None)))"

fun frontend_loop_h ::
  "digraph \<Rightarrow> nat \<Rightarrow> nat \<Rightarrow> nat \<Rightarrow> heap \<Rightarrow> string list \<Rightarrow> heap \<times> error option" where
  "frontend_loop_h D fs c v h [] = (h, None)"
| "frontend_loop_h D fs c v h (node # ns) =
     then_h (frontend_step_h D fs c v h node) (\<lambda>h'. frontend_loop_h D fs c v h' ns)"

definition detect_frontend_integration_h ::
  "heap \<Rightarrow> nat \<Rightarrow> nat option \<Rightarrow> heap \<times> (error + nat \<times> nat)" where
  "detect_frontend_integration_h h G frontend_services =
     (case set_or_new h frontend_services of (h0, frontend_services) \<Rightarrow>
      case lookup h0 G of
        Some (MultiDiGraphObj g) \<Rightarrow>
          (case alloc h0 (DiGraphObj (DiGraph g)) of (h1, D) \<Rightarrow>
           case alloc h1 (NodeSet {}) of (h2, frontend_candidates) \<Rightarrow>
           case alloc h2 (NodeSet {}) of (h3, frontend_violators) \<Rightarrow>
           case frontend_loop_h (DiGraph g) frontend_services frontend_candidates
                  frontend_violators h3 (nodes (DiGraph g)) of
             (h4, Some e) \<Rightarrow> (h4, Inl e)
           | (h4, None) \<Rightarrow> (h4, Inr (frontend_candidates, frontend_violators)))
      | _ \<Rightarrow> (h0, Inl NetworkXError))"

subsection \<open>Information holder resource\<close>

text \<open>The references of the five set objects the loop works with.\<close>

record ihr_refs =
  r_database_services :: nat
  r_ihr_candidates :: nat
  r_ihr_violators :: nat
  r_database_call_violators :: nat
  r_database_no_ihr_violators :: nat

definition ihr_step_h :: "digraph \<Rightarrow> ihr_refs \<Rightarrow> heap \<Rightarrow> string \<Rightarrow> heap \<times> error option" where
  "ihr_step_h D R h node =
     (let zero_degree = (out_degree D node = 0) in
      case set_contains h (r_database_services R) node of
        Inl e \<Rightarrow> (h, Some e)
      | Inr is_database \<Rightarrow>
          then_h
            (if zero_degree \<or> is_database
             then (case pred D node of
                     [p] \<Rightarrow>
                       then_h
                         (if length (succ D p) = 1
                          then pair_add (r_ihr_candidates R) (p, node) h
                          else pair_add (r_ihr_violators R) (p, node) h)
                         (set_discard (r_database_no_ihr_violators R) node)
                   | _ \<Rightarrow> (h, None))
             else (h, None))
            (\<lambda>h'. if \<not> zero_degree \<and> is_database
                   then set_add (r_database_call_violators R) node h'
                   else (h', None)))"

fun ihr_loop_h :: "digraph \<Rightarrow> ihr_refs \<Rightarrow> heap \<Rightarrow> string list \<Rightarrow> heap \<times> error option" where
  "ihr_loop_h D R h [] = (h, None)"
| "ihr_loop_h D R h (node # ns) =
     then_h (ihr_step_h D R h node) (\<lambda>h'. ihr_loop_h D R h' ns)"

text \<open>\<open>database_services.copy()\<close>: a new set object with the same elements.\<close>

definition set_copy :: "heap \<Rightarrow> nat \<Rightarrow> error + heap \<times> nat" where
  "set_copy h r =
     (case lookup h r of Some (NodeSet S) \<Rightarrow> Inr (alloc h (NodeSet S)) | _ \<Rightarrow> Inl AttributeError)"

definition detect_information_holder_resource_h ::
  "heap \<Rightarrow> nat \<Rightarrow> nat option \<Rightarrow> heap \<times> (error + nat \<times> nat \<times> nat \<times> nat)" where
  "detect_information_holder_resource_h h G database_services =
     (case set_or_new h database_services of (h0, database_services) \<Rightarrow>
      case lookup h0 G of
        Some (MultiDiGraphObj g) \<Rightarrow>
          (case alloc h0 (DiGraphObj (DiGraph g)) of (h1, D) \<Rightarrow>
           case alloc h1 (PairSet {}) of (h2, ihr_candidates_ref) \<Rightarrow>
           case alloc h2 (PairSet {}) of (h3, ihr_violators_ref) \<Rightarrow>
           case alloc h3 (NodeSet {}) of (h4, database_call_violators_ref) \<Rightarrow>
           case set_copy h4 database_services of
             Inl e \<Rightarrow> (h4, Inl e)
           | Inr (h5, database_no_ihr_violators_ref) \<Rightarrow>
               (case ihr_loop_h (DiGraph g)
                       \<lparr>r_database_services = database_services,
                        r_ihr_candidates = ihr_candidates_ref, r_ihr_violators = ihr_violators_ref,
                        r_database_call_violators = database_call_violators_ref,
                        r_database_no_ihr_violators = database_no_ihr_violators_ref\<rparr>
                       h5 (nodes (DiGraph g)) of
                  (h6, Some e) \<Rightarrow> (h6, Inl e)
                | (h6, None) \<Rightarrow>
                    (h6, Inr (ihr_candidates_ref, ihr_violators_ref, database_call_violators_ref,
                              database_no_ihr_violators_ref))))
      | _ \<Rightarrow> (h0, Inl NetworkXError))"

text \<open>What a caller sees of a result: the error, or the objects behind the references.\<close>

definition outcome2 :: "heap \<times> (error + nat \<times> nat) \<Rightarrow> error + obj option \<times> obj option" where
  "outcome2 r = (case r of (h, Inl e) \<Rightarrow> Inl e | (h, Inr (a, b)) \<Rightarrow> Inr (lookup h a, lookup h b))"

definition outcome4 ::
  "heap \<times> (error + nat \<times> nat \<times> nat \<times> nat) \<Rightarrow>
     error + obj option \<times> obj option \<times> obj option \<times> obj option" where
  "outcome4 r =
     (case r of
        (h, Inl e) \<Rightarrow> Inl e
      | (h, Inr (a, b, c, d)) \<Rightarrow> Inr (lookup h a, lookup h b, lookup h c, lookup h d))"

text \<open>Two heaps of the same size that agree on their first \<open>n\<close> cells.\<close>

definition same_below :: "nat \<Rightarrow> heap \<Rightarrow> heap \<Rightarrow> bool" where
  "same_below n h h' \<longleftrightarrow> length h' = length h \<and> take n h' = take n h"

subsection \<open>Relating the heap to the values\<close>

text \<open>
  The value of an optional set argument: \<open>None\<close> when it is omitted, the elements of the
  set object it refers to otherwise (and nothing when it refers to no set).
\<close>

definition read_set_arg :: "heap \<Rightarrow> nat option \<Rightarrow> string set option option" where
  "read_set_arg h x =
     (case x of
        None \<Rightarrow> Some None
      | Some r \<Rightarrow> (case lookup h r of Some (NodeSet T) \<Rightarrow> Some (Some T) | _ \<Rightarrow> None))"

text \<open>
  The heap detectors are tied to the value-level detectors by relations between a heap
  with the references of the local objects and the value-level state: each local object
  holds the corresponding component of the state, and the references are distinct.
\<close>

definition bundle_rel :: "nat \<Rightarrow> nat \<Rightarrow> heap \<Rightarrow> bundle_locals \<Rightarrow> bundle_state \<Rightarrow> bool" where
  "bundle_rel bs be h l s \<longleftrightarrow>
     lookup h bs = Some (ServiceBundles (bundles_service s)) \<and>
     lookup h be = Some (EndpointBundles (bundles_endpoint s)) \<and>
     l_last_call_service l = last_call_service s \<and>
     l_last_call_endpoint l = last_call_endpoint s \<and>
     l_count_service l = count_service s \<and>
     l_count_endpoint l = count_endpoint s"

definition bundle_objs ::
  "error + (string \<times> string \<times> int) list \<times> (string \<times> string \<times> string \<times> int) list \<Rightarrow>
     error + obj option \<times> obj option" where
  "bundle_objs r =
     (case r of
        Inl e \<Rightarrow> Inl e
      | Inr (bs, be) \<Rightarrow> Inr (Some (ServiceBundles bs), Some (EndpointBundles be)))"

definition frontend_rel ::
  "nat \<Rightarrow> nat \<Rightarrow> nat \<Rightarrow> heap \<Rightarrow> string set \<Rightarrow> string set \<times> string set \<Rightarrow> bool" where
  "frontend_rel fs c v h S st \<longleftrightarrow>
     lookup h fs = Some (NodeSet S) \<and> lookup h c = Some (NodeSet (fst st)) \<and>
     lookup h v = Some (NodeSet (snd st)) \<and> c \<noteq> v \<and> fs \<noteq> c \<and> fs \<noteq> v"

definition ihr_rel :: "ihr_refs \<Rightarrow> heap \<Rightarrow> string set \<Rightarrow> ihr_state \<Rightarrow> bool" where
  "ihr_rel R h DB s \<longleftrightarrow>
     lookup h (r_database_services R) = Some (NodeSet DB) \<and>
     lookup h (r_ihr_candidates R) = Some (PairSet (ihr_candidates s)) \<and>
     lookup h (r_ihr_violators R) = Some (PairSet (ihr_violators s)) \<and>
     lookup h (r_database_call_violators R) = Some (NodeSet (database_call_violators s)) \<and>
     lookup h (r_database_no_ihr_violators R) = Some (NodeSet (database_no_ihr_violators s)) \<and>
     distinct [r_database_services R, r_ihr_candidates R, r_ihr_violators R,
               r_database_call_violators R, r_database_no_ihr_violators R]"

section \<open>Properties of request bundle detection\<close>

subsection \<open>The loop, characterised by runs\<close>

lemma runs_from_ne: "runs_from k n xs \<noteq> []"
  by (induction xs arbitrary: k n) auto

text \<open>
  Once a previous key is recorded, neither half of the loop body can raise: it either
  extends the current run or closes it, reporting it when it meets the threshold.
\<close>

lemma service_part_some:
  "last_call_service s = Some k \<Longrightarrow>
   \<exists>s'. service_part th s x = Inr s' \<and> last_call_service s' = Some x
     \<and> count_service s' = (if x = k then count_service s + 1 else 1)
     \<and> bundles_service s' = bundles_service s @
          (if x = k then [] else service_findings th [(k, count_service s)])
     \<and> bundles_endpoint s' = bundles_endpoint s
     \<and> last_call_endpoint s' = last_call_endpoint s
     \<and> count_endpoint s' = count_endpoint s"
  by (cases k) (auto simp: service_part_def service_findings_def)

lemma endpoint_part_some:
  "last_call_endpoint s = Some k \<Longrightarrow>
   \<exists>s'. endpoint_part th s x = Inr s' \<and> last_call_endpoint s' = Some x
     \<and> count_endpoint s' = (if x = k then count_endpoint s + 1 else 1)
     \<and> bundles_endpoint s' = bundles_endpoint s @
          (if x = k then [] else endpoint_findings th [(k, count_endpoint s)])
     \<and> bundles_service s' = bundles_service s
     \<and> last_call_service s' = last_call_service s
     \<and> count_service s' = count_service s"
  by (cases k) (auto simp: endpoint_part_def endpoint_findings_def)

lemma service_findings_single_append:
  "service_findings th [r] @ service_findings th rs = service_findings th (r # rs)"
  by (simp add: service_findings_def)

lemma endpoint_findings_single_append:
  "endpoint_findings th [r] @ endpoint_findings th rs = endpoint_findings th (r # rs)"
  by (simp add: endpoint_findings_def)

lemma bundle_step_some:
  assumes "last_call_service s = Some ks" and "last_call_endpoint s = Some ke"
  shows "\<exists>s'. bundle_step ts te s c = Inr s'
     \<and> last_call_service s' = Some (service_key c) \<and> last_call_endpoint s' = Some (endpoint_key c)
     \<and> count_service s' = (if service_key c = ks then count_service s + 1 else 1)
     \<and> count_endpoint s' = (if endpoint_key c = ke then count_endpoint s + 1 else 1)
     \<and> bundles_service s' = bundles_service s @
          (if service_key c = ks then [] else service_findings ts [(ks, count_service s)])
     \<and> bundles_endpoint s' = bundles_endpoint s @
          (if endpoint_key c = ke then [] else endpoint_findings te [(ke, count_endpoint s)])"
proof -
  from service_part_some [OF assms(1), of ts "service_key c"]
  obtain s1 where s1: "service_part ts s (service_key c) = Inr s1"
    "last_call_service s1 = Some (service_key c)"
    "count_service s1 = (if service_key c = ks then count_service s + 1 else 1)"
    "bundles_service s1 = bundles_service s @
       (if service_key c = ks then [] else service_findings ts [(ks, count_service s)])"
    "bundles_endpoint s1 = bundles_endpoint s" "last_call_endpoint s1 = last_call_endpoint s"
    "count_endpoint s1 = count_endpoint s"
    by blast
  from s1(6) assms(2) have "last_call_endpoint s1 = Some ke" by simp
  from endpoint_part_some [OF this, of te "endpoint_key c"]
  obtain s2 where s2: "endpoint_part te s1 (endpoint_key c) = Inr s2"
    "last_call_endpoint s2 = Some (endpoint_key c)"
    "count_endpoint s2 = (if endpoint_key c = ke then count_endpoint s1 + 1 else 1)"
    "bundles_endpoint s2 = bundles_endpoint s1 @
       (if endpoint_key c = ke then [] else endpoint_findings te [(ke, count_endpoint s1)])"
    "bundles_service s2 = bundles_service s1" "last_call_service s2 = last_call_service s1"
    "count_service s2 = count_service s1"
    by blast
  have "bundle_step ts te s c = Inr s2"
    by (simp add: bundle_step_def s1(1) s2(1))
  with s1 s2 show ?thesis by simp
qed

lemma bundle_loop_some:
  assumes "last_call_service s = Some ks" and "last_call_endpoint s = Some ke"
  shows "\<exists>s'. bundle_loop ts te s cs = Inr s'
     \<and> bundles_service s' = bundles_service s @
          service_findings ts (butlast (runs_from ks (count_service s) (map service_key cs)))
     \<and> bundles_endpoint s' = bundles_endpoint s @
          endpoint_findings te (butlast (runs_from ke (count_endpoint s) (map endpoint_key cs)))"
  using assms
proof (induction cs arbitrary: s ks ke)
  case Nil
  then show ?case by (simp add: service_findings_def endpoint_findings_def)
next
  case (Cons c cs)
  from bundle_step_some [OF Cons.prems, of ts te c]
  obtain s1 where s1: "bundle_step ts te s c = Inr s1"
    "last_call_service s1 = Some (service_key c)" "last_call_endpoint s1 = Some (endpoint_key c)"
    "count_service s1 = (if service_key c = ks then count_service s + 1 else 1)"
    "count_endpoint s1 = (if endpoint_key c = ke then count_endpoint s + 1 else 1)"
    "bundles_service s1 = bundles_service s @
          (if service_key c = ks then [] else service_findings ts [(ks, count_service s)])"
    "bundles_endpoint s1 = bundles_endpoint s @
          (if endpoint_key c = ke then [] else endpoint_findings te [(ke, count_endpoint s)])"
    by blast
  from Cons.IH [OF s1(2) s1(3)]
  obtain s2 where s2: "bundle_loop ts te s1 cs = Inr s2"
    "bundles_service s2 = bundles_service s1 @
          service_findings ts (butlast (runs_from (service_key c) (count_service s1) (map service_key cs)))"
    "bundles_endpoint s2 = bundles_endpoint s1 @
          endpoint_findings te (butlast (runs_from (endpoint_key c) (count_endpoint s1) (map endpoint_key cs)))"
    by blast
  have loop: "bundle_loop ts te s (c # cs) = Inr s2"
    by (simp add: s1(1) s2(1))
  have bs: "bundles_service s2 = bundles_service s @
          service_findings ts (butlast (runs_from ks (count_service s) (map service_key (c # cs))))"
    using s2(2) s1(4) s1(6)
    by (simp add: runs_from_ne service_findings_single_append)
  have be: "bundles_endpoint s2 = bundles_endpoint s @
          endpoint_findings te (butlast (runs_from ke (count_endpoint s) (map endpoint_key (c # cs))))"
    using s2(3) s1(5) s1(7)
    by (simp add: runs_from_ne endpoint_findings_single_append)
  from loop bs be show ?case by blast
qed

lemma bundle_step_init:
  "bundle_step ts te bundle_init c =
     (if ts \<le> 1 \<or> te \<le> 1 then Inl TypeError
      else Inr (bundle_init\<lparr>last_call_service := Some (service_key c),
                            last_call_endpoint := Some (endpoint_key c)\<rparr>))"
  by (simp add: bundle_step_def service_part_def endpoint_part_def bundle_init_def)

lemma detect_request_bundle_Nil: "detect_request_bundle [] ts te = Inr ([], [])"
  by (simp add: detect_request_bundle_def bundle_init_def)

lemma detect_request_bundle_char:
  "detect_request_bundle p ts te =
     (if p = [] then Inr ([], [])
      else if ts \<le> 1 \<or> te \<le> 1 then Inl TypeError
      else Inr (service_findings ts (butlast (runs (map service_key p))),
                endpoint_findings te (butlast (runs (map endpoint_key p)))))"
proof (cases p)
  case Nil
  then show ?thesis by (simp add: detect_request_bundle_Nil)
next
  case (Cons c cs)
  show ?thesis
  proof (cases "ts \<le> 1 \<or> te \<le> 1")
    case True
    then show ?thesis
      by (simp add: Cons detect_request_bundle_def bundle_step_init)
  next
    case False
    define s0 where "s0 = bundle_init\<lparr>last_call_service := Some (service_key c),
                            last_call_endpoint := Some (endpoint_key c)\<rparr>"
    have s0: "last_call_service s0 = Some (service_key c)"
      "last_call_endpoint s0 = Some (endpoint_key c)"
      "count_service s0 = 1" "count_endpoint s0 = 1" "bundles_service s0 = []"
      "bundles_endpoint s0 = []"
      by (simp_all add: s0_def bundle_init_def)
    from bundle_loop_some [OF s0(1) s0(2), of ts te cs]
    obtain s' where s': "bundle_loop ts te s0 cs = Inr s'"
      "bundles_service s' = service_findings ts (butlast (runs (map service_key p)))"
      "bundles_endpoint s' = endpoint_findings te (butlast (runs (map endpoint_key p)))"
      by (auto simp: s0 Cons)
    have "bundle_loop ts te bundle_init p = Inr s'"
      using False s'(1) by (simp add: Cons bundle_step_init s0_def)
    with False s' show ?thesis
      by (simp add: detect_request_bundle_def Cons)
  qed
qed

text \<open>
  Sanity of the run-length encoding: expanding the runs gives the key sequence back,
  neighbouring runs have different keys, and every run has length at least 1.
\<close>

lemma runs_from_all_same:
  "\<forall>y\<in>set ys. y = k \<Longrightarrow> runs_from k n ys = [(k, n + int (length ys))]"
  by (induction ys arbitrary: n) auto

lemma runs_from_append_trailing:
  "ys \<noteq> [] \<Longrightarrow> \<forall>y\<in>set ys. y = k \<Longrightarrow> last (a # xs) \<noteq> k \<Longrightarrow>
     runs_from a n (xs @ ys) = runs_from a n xs @ [(k, int (length ys))]"
proof (induction xs arbitrary: a n)
  case Nil
  then show ?case by (cases ys) (auto simp: runs_from_all_same)
next
  case (Cons x xs)
  then show ?case by auto
qed

lemma runs_append_trailing:
  "ys \<noteq> [] \<Longrightarrow> \<forall>y\<in>set ys. y = k \<Longrightarrow> xs = [] \<or> last xs \<noteq> k \<Longrightarrow>
     runs (xs @ ys) = runs xs @ [(k, int (length ys))]"
  by (cases xs; cases ys) (auto simp: runs_from_all_same runs_from_append_trailing)

lemma runs_from_expand:
  "0 \<le> n \<Longrightarrow>
   concat (map (\<lambda>(k, n). replicate (nat n) k) (runs_from k n xs)) = replicate (nat n) k @ xs"
  by (induction xs arbitrary: k n) (auto simp: nat_add_distrib replicate_app_Cons_same)

lemma runs_expand: "concat (map (\<lambda>(k, n). replicate (nat n) k) (runs xs)) = xs"
  by (cases xs) (auto simp: runs_from_expand)

lemma runs_from_hd: "fst (hd (runs_from k n xs)) = k"
  by (induction xs arbitrary: n) auto

lemma runs_from_distinct_adj: "distinct_adj (map fst (runs_from k n xs))"
  by (induction xs arbitrary: k n)
    (auto simp: distinct_adj_Cons runs_from_ne runs_from_hd hd_map split: list.splits)

lemma runs_distinct_adj: "distinct_adj (map fst (runs xs))"
  by (cases xs) (auto simp: runs_from_distinct_adj)

lemma runs_from_pos: "1 \<le> n \<Longrightarrow> (k', m) \<in> set (runs_from k n xs) \<Longrightarrow> 1 \<le> m"
proof (induction xs arbitrary: k n)
  case Nil
  then show ?case by simp
next
  case (Cons x xs)
  show ?case
  proof (cases "x = k")
    case True
    with Cons.prems have "(k', m) \<in> set (runs_from k (n + 1) xs)" by simp
    from Cons.IH [OF _ this] Cons.prems(1) show ?thesis by simp
  next
    case False
    with Cons.prems have "(k', m) = (k, n) \<or> (k', m) \<in> set (runs_from x 1 xs)" by simp
    then show ?thesis using Cons.IH [of 1 x] Cons.prems(1) by auto
  qed
qed

lemma runs_pos: "(k, m) \<in> set (runs xs) \<Longrightarrow> 1 \<le> m"
  by (cases xs) (auto dest: runs_from_pos [rotated])

subsection \<open>Claims about request bundles\<close>

text \<open>
  C1. A run of identical keys that reaches the end of the pipeline is never emitted.
  Split the pipeline into a prefix and its trailing run (a nonempty block of calls with
  one key, the prefix not ending in that key). Whenever the detector returns, the
  service-level findings are exactly the threshold-meeting runs of the prefix, so nothing
  is reported for the trailing run however long it is; likewise at endpoint level.
  Every run of the prefix has been closed by a later call with a different key.
\<close>

theorem trailing_run_never_emitted:
  assumes "detect_request_bundle (pre @ run) ts te = Inr (bs, be)" and "run \<noteq> []"
  shows "((\<forall>c\<in>set run. service_key c = k) \<and> (pre = [] \<or> service_key (last pre) \<noteq> k)
            \<longrightarrow> bs = service_findings ts (runs (map service_key pre)))
       \<and> ((\<forall>c\<in>set run. endpoint_key c = k') \<and> (pre = [] \<or> endpoint_key (last pre) \<noteq> k')
            \<longrightarrow> be = endpoint_findings te (runs (map endpoint_key pre)))"
proof -
  from assms have res:
    "bs = service_findings ts (butlast (runs (map service_key (pre @ run))))"
    "be = endpoint_findings te (butlast (runs (map endpoint_key (pre @ run))))"
    by (simp_all add: detect_request_bundle_char split: if_splits)
  have svc: "bs = service_findings ts (runs (map service_key pre))"
    if "\<forall>c\<in>set run. service_key c = k" and "pre = [] \<or> service_key (last pre) \<noteq> k"
  proof -
    have "runs (map service_key pre @ map service_key run) =
            runs (map service_key pre) @ [(k, int (length (map service_key run)))]"
      using that assms(2) by (intro runs_append_trailing) (auto simp: last_map)
    with res(1) show ?thesis by simp
  qed
  have ept: "be = endpoint_findings te (runs (map endpoint_key pre))"
    if "\<forall>c\<in>set run. endpoint_key c = k'" and "pre = [] \<or> endpoint_key (last pre) \<noteq> k'"
  proof -
    have "runs (map endpoint_key pre @ map endpoint_key run) =
            runs (map endpoint_key pre) @ [(k', int (length (map endpoint_key run)))]"
      using that assms(2) by (intro runs_append_trailing) (auto simp: last_map)
    with res(2) show ?thesis by simp
  qed
  from svc ept show ?thesis by blast
qed

theorem trailing_run_never_emitted_witness:
  "detect_request_bundle
     ([(0, ''C'', ''D'', ''f''), (1, ''C'', ''D'', ''f'')] @
      [(2, ''A'', ''B'', ''e''), (3, ''A'', ''B'', ''e''), (4, ''A'', ''B'', ''e'')]) 2 2
     = Inr ([(''C'', ''D'', 2)], [(''C'', ''D'', ''f'', 2)])
   \<and> [(''C'', ''D'', 2)] =
       service_findings 2 (runs (map service_key [(0, ''C'', ''D'', ''f''), (1, ''C'', ''D'', ''f'')]))
   \<and> [(''C'', ''D'', ''f'', 2)] =
       endpoint_findings 2 (runs (map endpoint_key [(0, ''C'', ''D'', ''f''), (1, ''C'', ''D'', ''f'')]))"
proof -
  have run: "detect_request_bundle
     ([(0, ''C'', ''D'', ''f''), (1, ''C'', ''D'', ''f'')] @
      [(2, ''A'', ''B'', ''e''), (3, ''A'', ''B'', ''e''), (4, ''A'', ''B'', ''e'')]) 2 2
     = Inr ([(''C'', ''D'', 2)], [(''C'', ''D'', ''f'', 2)])"
    by (simp add: detect_request_bundle_def bundle_init_def bundle_step_def service_part_def
        endpoint_part_def service_key_def endpoint_key_def)
  have ne: "[(2::nat, ''A'', ''B'', ''e''), (3, ''A'', ''B'', ''e''), (4, ''A'', ''B'', ''e'')] \<noteq> []"
    by simp
  from trailing_run_never_emitted [OF run ne, of "(''A'', ''B'')" "(''A'', ''B'', ''e'')"] run
  show ?thesis by (simp add: service_key_def endpoint_key_def)
qed

text \<open>
  C2. With \<open>threshold_service = 1\<close> the very first call of a pipeline finds
  \<open>count_service = 1 \<ge> 1\<close> while \<open>last_call_service\<close> is still \<open>None\<close>, and unpacking
  \<open>None\<close> raises \<open>TypeError\<close>: the detector does not return on this input.
\<close>

theorem threshold_one_raises:
  "detect_request_bundle [(0, ''A'', ''B'', ''e'')] 1 1 = Inl TypeError"
  by (simp add: detect_request_bundle_def bundle_init_def bundle_step_def service_part_def
      service_key_def)

text \<open>
  C7. Three calls from A to B on one endpoint, then a call from C to D, with both
  thresholds 2: the closed run is reported once at each level, with count 3.
\<close>

theorem three_calls_then_other:
  "detect_request_bundle
     [(t1, ''A'', ''B'', e), (t2, ''A'', ''B'', e), (t3, ''A'', ''B'', e), (t4, ''C'', ''D'', e')] 2 2
   = Inr ([(''A'', ''B'', 3)], [(''A'', ''B'', e, 3)])"
  by (simp add: detect_request_bundle_def bundle_init_def bundle_step_def service_part_def
      endpoint_part_def service_key_def endpoint_key_def)

theorem three_calls_then_other_witness:
  "detect_request_bundle
     [(0, ''A'', ''B'', ''/x''), (1, ''A'', ''B'', ''/x''), (2, ''A'', ''B'', ''/x''),
      (3, ''C'', ''D'', ''/y'')] 2 2
   = Inr ([(''A'', ''B'', 3)], [(''A'', ''B'', ''/x'', 3)])"
  using three_calls_then_other [of 0 "''/x''" 1 2 3 "''/y''"] by simp

section \<open>Properties of the graph detectors\<close>

lemma frontend_fold:
  "foldl (frontend_step D fs) (c, v) ns =
     (c \<union> {n \<in> set ns. in_degree D n = 0 \<and> out_degree D n > 0},
      v \<union> {n \<in> set ns. in_degree D n \<noteq> 0 \<and> n \<in> fs})"
  by (induction ns arbitrary: c v) (auto simp: frontend_step_def)

lemma succ_in_nodes: "succ (DiGraph G) n \<noteq> [] \<Longrightarrow> n \<in> set (nodes (DiGraph G))"
  by (force simp: DiGraph_def filter_empty_conv)

lemma pred_in_nodes: "pred (DiGraph G) n \<noteq> [] \<Longrightarrow> n \<in> set (nodes (DiGraph G))"
  by (force simp: DiGraph_def filter_empty_conv)

lemma pred_succ: "p \<in> set (pred (DiGraph G) n) \<longleftrightarrow> n \<in> set (succ (DiGraph G) p)"
  by (force simp: DiGraph_def)

lemma ihr_fold_candidates:
  "ihr_candidates (foldl (ihr_step D db) s ns) =
     ihr_candidates s \<union> {(p, n). n \<in> set ns \<and> (out_degree D n = 0 \<or> n \<in> db) \<and> pred D n = [p]
                              \<and> length (succ D p) = 1}"
  by (induction ns arbitrary: s) (auto simp: ihr_step_def Let_def split: list.splits)

lemma ihr_fold_violators:
  "ihr_violators (foldl (ihr_step D db) s ns) =
     ihr_violators s \<union> {(p, n). n \<in> set ns \<and> (out_degree D n = 0 \<or> n \<in> db) \<and> pred D n = [p]
                              \<and> length (succ D p) \<noteq> 1}"
  by (induction ns arbitrary: s) (auto simp: ihr_step_def Let_def split: list.splits)

lemma ihr_fold_call_violators:
  "database_call_violators (foldl (ihr_step D db) s ns) =
     database_call_violators s \<union> {n \<in> set ns. out_degree D n \<noteq> 0 \<and> n \<in> db}"
  by (induction ns arbitrary: s) (auto simp: ihr_step_def Let_def split: list.splits)

lemma ihr_fold_no_ihr:
  "database_no_ihr_violators (foldl (ihr_step D db) s ns) =
     database_no_ihr_violators s -
       {n \<in> set ns. (out_degree D n = 0 \<or> n \<in> db) \<and> length (pred D n) = 1}"
  by (induction ns arbitrary: s) (auto simp: ihr_step_def Let_def split: list.splits)

lemma in_degree_nonneg: "0 \<le> in_degree D n"
  by (simp add: in_degree_def)

lemma out_degree_pos_node: "0 < out_degree (DiGraph G) n \<Longrightarrow> n \<in> set (nodes (DiGraph G))"
  by (rule succ_in_nodes) (auto simp: out_degree_def)

lemma in_degree_pos_node: "in_degree (DiGraph G) n \<noteq> 0 \<Longrightarrow> n \<in> set (nodes (DiGraph G))"
  by (rule pred_in_nodes) (auto simp: in_degree_def)

lemma detect_frontend_integration_char:
  "detect_frontend_integration G fso =
     ({n. in_degree (DiGraph G) n = 0 \<and> out_degree (DiGraph G) n > 0},
      {n. in_degree (DiGraph G) n \<noteq> 0 \<and> n \<in> set_or_empty fso})"
  by (auto simp: detect_frontend_integration_def Let_def frontend_fold
      dest: out_degree_pos_node in_degree_pos_node)

text \<open>
  C4. The branch structure of the frontend detector, for every node: it is a candidate
  exactly when its in-degree is 0 and its out-degree is positive; it is a violator exactly
  when its in-degree is positive and it is a declared frontend service. In particular a
  declared frontend service with in-degree 0 never reaches the violator branch.
\<close>

theorem frontend_branches:
  assumes "detect_frontend_integration G frontend_services = (cands, viols)"
  shows "(node \<in> cands \<longleftrightarrow> in_degree (DiGraph G) node = 0 \<and> out_degree (DiGraph G) node > 0)
       \<and> (node \<in> viols \<longleftrightarrow>
            in_degree (DiGraph G) node > 0 \<and> node \<in> set_or_empty frontend_services)
       \<and> (node \<in> set_or_empty frontend_services \<and> in_degree (DiGraph G) node = 0
            \<longrightarrow> node \<notin> viols)"
proof -
  from assms have c: "cands = {n. in_degree (DiGraph G) n = 0 \<and> out_degree (DiGraph G) n > 0}"
    and v: "viols = {n. in_degree (DiGraph G) n \<noteq> 0 \<and> n \<in> set_or_empty frontend_services}"
    by (simp_all add: detect_frontend_integration_char)
  have "in_degree (DiGraph G) node \<noteq> 0 \<longleftrightarrow> in_degree (DiGraph G) node > 0"
    using in_degree_nonneg [of "DiGraph G" node] by arith
  with c v show ?thesis by simp
qed

theorem frontend_branches_witness:
  "in_degree (DiGraph frontend_example) ''X'' = 0
   \<and> out_degree (DiGraph frontend_example) ''X'' = 2
   \<and> ''X'' \<in> fst (detect_frontend_integration frontend_example (Some {''Y'', ''I''}))
   \<and> in_degree (DiGraph frontend_example) ''Y'' = 2
   \<and> ''Y'' \<in> snd (detect_frontend_integration frontend_example (Some {''Y'', ''I''}))
   \<and> in_degree (DiGraph frontend_example) ''I'' = 0
   \<and> ''I'' \<notin> snd (detect_frontend_integration frontend_example (Some {''Y'', ''I''}))"
proof -
  define r where "r = detect_frontend_integration frontend_example (Some {''Y'', ''I''})"
  have run: "detect_frontend_integration frontend_example (Some {''Y'', ''I''}) = (fst r, snd r)"
    by (simp add: r_def)
  have deg: "in_degree (DiGraph frontend_example) ''X'' = 0"
    "out_degree (DiGraph frontend_example) ''X'' = 2"
    "in_degree (DiGraph frontend_example) ''Y'' = 2"
    "in_degree (DiGraph frontend_example) ''I'' = 0"
    by (simp_all add: frontend_example_def DiGraph_def in_degree_def out_degree_def)
  from frontend_branches [OF run, of "''X''"] frontend_branches [OF run, of "''Y''"]
    frontend_branches [OF run, of "''I''"] deg
  show ?thesis
    by (simp add: r_def set_or_empty_def)
qed

text \<open>
  C10. The two sets returned by the frontend detector never share a node.
\<close>

theorem frontend_disjoint:
  "fst (detect_frontend_integration G frontend_services) \<inter>
   snd (detect_frontend_integration G frontend_services) = {}"
  by (auto simp: detect_frontend_integration_char)

theorem frontend_disjoint_witness:
  "fst (detect_frontend_integration frontend_example (Some {''Y'', ''X'', ''I''})) \<inter>
   snd (detect_frontend_integration frontend_example (Some {''Y'', ''X'', ''I''})) = {}"
  using frontend_disjoint [of frontend_example "Some {''Y'', ''X'', ''I''}"] by simp

subsection \<open>Information holder resource\<close>

lemma detect_ihr_char:
  "detect_information_holder_resource G dbo =
     ({(p, n). (out_degree (DiGraph G) n = 0 \<or> n \<in> set_or_empty dbo) \<and> pred (DiGraph G) n = [p]
                 \<and> length (succ (DiGraph G) p) = 1},
      {(p, n). (out_degree (DiGraph G) n = 0 \<or> n \<in> set_or_empty dbo) \<and> pred (DiGraph G) n = [p]
                 \<and> length (succ (DiGraph G) p) \<noteq> 1},
      {n. out_degree (DiGraph G) n \<noteq> 0 \<and> n \<in> set_or_empty dbo},
      set_or_empty dbo - {n. (out_degree (DiGraph G) n = 0 \<or> n \<in> set_or_empty dbo)
                               \<and> length (pred (DiGraph G) n) = 1})"
proof -
  have a: "pred (DiGraph G) n = [p] \<Longrightarrow> n \<in> set (nodes (DiGraph G))" for n p
    by (rule pred_in_nodes) simp
  have b: "length (pred (DiGraph G) n) = 1 \<Longrightarrow> n \<in> set (nodes (DiGraph G))" for n
    by (rule pred_in_nodes) auto
  have c: "out_degree (DiGraph G) n \<noteq> 0 \<Longrightarrow> n \<in> set (nodes (DiGraph G))" for n
    by (rule succ_in_nodes) (auto simp: out_degree_def)
  show ?thesis
    unfolding detect_information_holder_resource_def Let_def
      ihr_fold_candidates ihr_fold_violators ihr_fold_call_violators ihr_fold_no_ihr
    using a b c by auto
qed

lemma out_degree_nonneg: "0 \<le> out_degree D n"
  by (simp add: out_degree_def)

text \<open>
  C3. A node that has out-degree 0 or is a declared database service, and has exactly one
  predecessor \<open>p\<close>: the pair \<open>(p, node)\<close> is a candidate exactly when \<open>p\<close> has a single
  successor and a violator otherwise, and in both cases the node is no longer in
  \<open>database_no_ihr_violators\<close>.
\<close>

theorem ihr_single_predecessor:
  assumes "detect_information_holder_resource G database_services = (cands, viols, dcv, dniv)"
    and "out_degree (DiGraph G) node = 0 \<or> node \<in> set_or_empty database_services"
    and "pred (DiGraph G) node = [p]"
  shows "((p, node) \<in> cands \<longleftrightarrow> length (succ (DiGraph G) p) = 1)
       \<and> ((p, node) \<in> viols \<longleftrightarrow> length (succ (DiGraph G) p) \<noteq> 1)
       \<and> node \<notin> dniv"
  using assms by (auto simp: detect_ihr_char)

theorem ihr_single_predecessor_witness:
  "pred (DiGraph ihr_example) ''S'' = [''P''] \<and> length (succ (DiGraph ihr_example) ''P'') = 1
   \<and> (''P'', ''S'') \<in> fst (detect_information_holder_resource ihr_example (Some {''S'', ''Z''}))
   \<and> ''S'' \<notin> snd (snd (snd (detect_information_holder_resource ihr_example (Some {''S'', ''Z''}))))
   \<and> pred (DiGraph ihr_example) ''U'' = [''Q''] \<and> length (succ (DiGraph ihr_example) ''Q'') = 2
   \<and> (''Q'', ''U'') \<in>
        fst (snd (detect_information_holder_resource ihr_example (Some {''S'', ''Z''})))"
proof -
  define r where "r = detect_information_holder_resource ihr_example (Some {''S'', ''Z''})"
  have run: "detect_information_holder_resource ihr_example (Some {''S'', ''Z''})
               = (fst r, fst (snd r), fst (snd (snd r)), snd (snd (snd r)))"
    by (simp add: r_def)
  have adj: "pred (DiGraph ihr_example) ''S'' = [''P'']"
    "succ (DiGraph ihr_example) ''P'' = [''S'']"
    "pred (DiGraph ihr_example) ''U'' = [''Q'']"
    "succ (DiGraph ihr_example) ''Q'' = [''T'', ''U'']"
    "succ (DiGraph ihr_example) ''U'' = []"
    by (simp_all add: ihr_example_def DiGraph_def)
  have dbS: "out_degree (DiGraph ihr_example) ''S'' = 0
               \<or> ''S'' \<in> set_or_empty (Some {''S'', ''Z''})"
    by (simp add: set_or_empty_def)
  have dbU: "out_degree (DiGraph ihr_example) ''U'' = 0
               \<or> ''U'' \<in> set_or_empty (Some {''S'', ''Z''})"
    by (simp add: out_degree_def adj)
  from ihr_single_predecessor [OF run dbS adj(1)] ihr_single_predecessor [OF run dbU adj(3)] adj
  show ?thesis
    by (simp add: r_def)
qed

text \<open>
  C5. A node is in \<open>database_call_violators\<close> exactly when it is a declared database
  service with positive out-degree; nothing about its predecessors enters. The check can
  hold together with either classification of the same node: there are graphs in which a
  call violator is also the second component of a candidate pair, or of a violator pair.
\<close>

theorem database_call_violators_independent:
  assumes "detect_information_holder_resource G database_services = (cands, viols, dcv, dniv)"
  shows "(node \<in> dcv \<longleftrightarrow>
            node \<in> set_or_empty database_services \<and> out_degree (DiGraph G) node > 0)
       \<and> (\<exists>G' db' c' v' d' n' q r x y.
            detect_information_holder_resource G' db' = (c', v', d', n')
            \<and> (q, x) \<in> c' \<and> x \<in> d' \<and> (r, y) \<in> v' \<and> y \<in> d')"
proof -
  have "out_degree (DiGraph G) node \<noteq> 0 \<longleftrightarrow> out_degree (DiGraph G) node > 0"
    using out_degree_nonneg [of "DiGraph G" node] by arith
  with assms have first: "node \<in> dcv \<longleftrightarrow>
      node \<in> set_or_empty database_services \<and> out_degree (DiGraph G) node > 0"
    by (auto simp: detect_ihr_char)
  define G' where "G' = \<lparr>node_list = [], edge_list =
     [(''P'', ''D'', ''get''), (''D'', ''X'', ''get''),
      (''Q'', ''E'', ''get''), (''Q'', ''X'', ''get''), (''E'', ''X'', ''get'')]\<rparr>"
  have D: "pred (DiGraph G') ''D'' = [''P'']" "succ (DiGraph G') ''P'' = [''D'']"
    "succ (DiGraph G') ''D'' = [''X'']"
    and E: "pred (DiGraph G') ''E'' = [''Q'']" "succ (DiGraph G') ''Q'' = [''E'', ''X'']"
    "succ (DiGraph G') ''E'' = [''X'']"
    by (simp_all add: G'_def DiGraph_def)
  have "(''P'', ''D'') \<in> fst (detect_information_holder_resource G' (Some {''D'', ''E''}))"
    "(''Q'', ''E'') \<in> fst (snd (detect_information_holder_resource G' (Some {''D'', ''E''})))"
    "''D'' \<in> fst (snd (snd (detect_information_holder_resource G' (Some {''D'', ''E''}))))"
    "''E'' \<in> fst (snd (snd (detect_information_holder_resource G' (Some {''D'', ''E''}))))"
    by (simp_all add: detect_ihr_char D E set_or_empty_def out_degree_def)
  then have "\<exists>G' db' c' v' d' n' q r x y.
            detect_information_holder_resource G' db' = (c', v', d', n')
            \<and> (q, x) \<in> c' \<and> x \<in> d' \<and> (r, y) \<in> v' \<and> y \<in> d'"
    by (metis prod.collapse)
  with first show ?thesis by blast
qed

theorem database_call_violators_independent_witness:
  "''T'' \<in> set_or_empty (Some {''T'', ''Z''})
   \<and> out_degree (DiGraph ihr_example) ''T'' = 1
   \<and> ''T'' \<in> fst (snd (snd (detect_information_holder_resource ihr_example (Some {''T'', ''Z''}))))"
proof -
  define r where "r = detect_information_holder_resource ihr_example (Some {''T'', ''Z''})"
  have run: "detect_information_holder_resource ihr_example (Some {''T'', ''Z''})
               = (fst r, fst (snd r), fst (snd (snd r)), snd (snd (snd r)))"
    by (simp add: r_def)
  have deg: "out_degree (DiGraph ihr_example) ''T'' = 1"
    by (simp add: ihr_example_def DiGraph_def out_degree_def)
  from database_call_violators_independent [OF run, of "''T''"] deg
  show ?thesis
    by (simp add: r_def set_or_empty_def)
qed

text \<open>
  C6. A declared database service with out-degree 0 and no predecessor stays in
  \<open>database_no_ihr_violators\<close> and occurs in none of the other three collections, neither
  as a call violator nor as a component of a candidate or violator pair. More generally,
  a node whose number of predecessors is not 1 is the second component of no pair, and it
  is in \<open>database_no_ihr_violators\<close> exactly when it was declared a database service.
\<close>

theorem database_without_predecessor:
  assumes "detect_information_holder_resource G database_services = (cands, viols, dcv, dniv)"
  shows "(node \<in> set_or_empty database_services \<and> out_degree (DiGraph G) node = 0
            \<and> pred (DiGraph G) node = []
          \<longrightarrow> node \<in> dniv \<and> node \<notin> dcv
              \<and> (\<forall>a b. (a, b) \<in> cands \<union> viols \<longrightarrow> a \<noteq> node \<and> b \<noteq> node))
       \<and> (length (pred (DiGraph G) node) \<noteq> 1
          \<longrightarrow> (\<forall>p. (p, node) \<notin> cands \<and> (p, node) \<notin> viols)
              \<and> (node \<in> dniv \<longleftrightarrow> node \<in> set_or_empty database_services))"
proof -
  have src: "out_degree (DiGraph G) a \<noteq> 0" if "pred (DiGraph G) b = [a]" for a b
  proof -
    from that have "a \<in> set (pred (DiGraph G) b)" by simp
    then have "b \<in> set (succ (DiGraph G) a)" by (simp add: pred_succ)
    then show ?thesis by (auto simp: out_degree_def)
  qed
  from assms show ?thesis
    by (auto simp: detect_ihr_char dest: src)
qed

theorem database_without_predecessor_witness:
  "''Z'' \<in> set_or_empty (Some {''S'', ''Z''})
   \<and> out_degree (DiGraph ihr_example) ''Z'' = 0
   \<and> pred (DiGraph ihr_example) ''Z'' = []
   \<and> ''Z'' \<in> snd (snd (snd (detect_information_holder_resource ihr_example (Some {''S'', ''Z''}))))
   \<and> ''Z'' \<notin> fst (snd (snd (detect_information_holder_resource ihr_example (Some {''S'', ''Z''}))))"
proof -
  define r where "r = detect_information_holder_resource ihr_example (Some {''S'', ''Z''})"
  have run: "detect_information_holder_resource ihr_example (Some {''S'', ''Z''})
               = (fst r, fst (snd r), fst (snd (snd r)), snd (snd (snd r)))"
    by (simp add: r_def)
  have adj: "out_degree (DiGraph ihr_example) ''Z'' = 0" "pred (DiGraph ihr_example) ''Z'' = []"
    by (simp_all add: ihr_example_def DiGraph_def out_degree_def)
  from database_without_predecessor [OF run, of "''Z''"] adj
  show ?thesis
    by (simp add: r_def set_or_empty_def)
qed

section \<open>Properties of the detectors on the heap\<close>

subsection \<open>Heap primitives\<close>

lemma same_below_refl: "same_below n h h"
  by (simp add: same_below_def)

lemma same_below_trans: "same_below n h h1 \<Longrightarrow> same_below n h1 h2 \<Longrightarrow> same_below n h h2"
  by (simp add: same_below_def)

lemma same_below_update: "n \<le> r \<Longrightarrow> same_below n h (h[r := v])"
  by (simp add: same_below_def)

lemma lookup_update_same: "r < length h \<Longrightarrow> lookup (h[r := v]) r = Some v"
  by (simp add: lookup_def)

lemma lookup_update_other: "r' \<noteq> r \<Longrightarrow> lookup (h[r := v]) r' = lookup h r'"
  by (simp add: lookup_def)

lemma lookup_Some_less: "lookup h r = Some v \<Longrightarrow> r < length h"
  by (simp add: lookup_def split: if_splits)

lemma lookup_append_old: "lookup h r = Some v \<Longrightarrow> lookup (h @ [w]) r = Some v"
  by (auto simp: lookup_def nth_append split: if_splits)

lemma lookup_append_new: "lookup (h @ [w]) (length h) = Some w"
  by (simp add: lookup_def)

lemma same_below_set_add: "n \<le> r \<Longrightarrow> same_below n h (fst (set_add r x h))"
  by (auto simp: set_add_def same_below_update same_below_refl split: option.splits obj.splits)

lemma same_below_set_discard: "n \<le> r \<Longrightarrow> same_below n h (fst (set_discard r x h))"
  by (auto simp: set_discard_def same_below_update same_below_refl split: option.splits obj.splits)

lemma same_below_pair_add: "n \<le> r \<Longrightarrow> same_below n h (fst (pair_add r x h))"
  by (auto simp: pair_add_def same_below_update same_below_refl split: option.splits obj.splits)

lemma same_below_append_service: "n \<le> r \<Longrightarrow> same_below n h (fst (append_service r x h))"
  by (auto simp: append_service_def same_below_update same_below_refl
      split: option.splits obj.splits)

lemma same_below_append_endpoint: "n \<le> r \<Longrightarrow> same_below n h (fst (append_endpoint r x h))"
  by (auto simp: append_endpoint_def same_below_update same_below_refl
      split: option.splits obj.splits)

lemma same_below_then_h:
  assumes "same_below n h (fst r)" and "\<And>h1. same_below n h h1 \<Longrightarrow> same_below n h (fst (k h1))"
  shows "same_below n h (fst (then_h r k))"
  using assms by (cases r) (auto simp: then_h_def split: option.splits)

subsection \<open>Frame: request bundles\<close>

lemma append_service_frame:
  "append_service r x h = (h', e) \<Longrightarrow> n \<le> r \<Longrightarrow> same_below n h h'"
  using same_below_append_service [of n r h x] by simp

lemma append_endpoint_frame:
  "append_endpoint r x h = (h', e) \<Longrightarrow> n \<le> r \<Longrightarrow> same_below n h h'"
  using same_below_append_endpoint [of n r h x] by simp

lemma service_part_h_frame:
  "n \<le> bs \<Longrightarrow> same_below n h (fst (fst (service_part_h ts bs k (h, l))))"
  by (auto simp: service_part_h_def then_h_def same_below_refl
      split: option.splits prod.splits dest: append_service_frame)

lemma endpoint_part_h_frame:
  "n \<le> be \<Longrightarrow> same_below n h (fst (fst (endpoint_part_h te be k (h, l))))"
  by (auto simp: endpoint_part_h_def then_h_def same_below_refl
      split: option.splits prod.splits dest: append_endpoint_frame)

lemma bundle_step_h_frame:
  assumes "n \<le> bs" and "n \<le> be"
  shows "same_below n h (fst (fst (bundle_step_h ts te bs be (h, l) c)))"
proof -
  obtain h1 l1 e1 where s1: "service_part_h ts bs (service_key c) (h, l) = ((h1, l1), e1)"
    by (metis prod.collapse)
  from service_part_h_frame [OF assms(1), of h ts "service_key c" l] s1
  have f1: "same_below n h h1" by simp
  show ?thesis
  proof (cases e1)
    case None
    from endpoint_part_h_frame [OF assms(2), of h1 te "endpoint_key c" l1]
    have "same_below n h1 (fst (fst (endpoint_part_h te be (endpoint_key c) (h1, l1))))" .
    with f1 show ?thesis
      by (auto simp: bundle_step_h_def then_h_def s1 None intro: same_below_trans)
  next
    case (Some e)
    with f1 show ?thesis by (simp add: bundle_step_h_def then_h_def s1)
  qed
qed

lemma bundle_loop_h_frame:
  assumes "n \<le> bs" and "n \<le> be"
  shows "same_below n h (fst (fst (bundle_loop_h ts te bs be (h, l) cs)))"
proof (induction cs arbitrary: h l)
  case Nil
  show ?case by (simp add: same_below_refl)
next
  case (Cons c cs)
  obtain h1 l1 e1 where s1: "bundle_step_h ts te bs be (h, l) c = ((h1, l1), e1)"
    by (metis prod.collapse)
  from bundle_step_h_frame [OF assms, of h ts te l c] s1
  have f1: "same_below n h h1" by simp
  show ?case
  proof (cases e1)
    case None
    with f1 Cons.IH [of h1 l1] show ?thesis
      by (auto simp: then_h_def s1 intro: same_below_trans)
  next
    case (Some e)
    with f1 show ?thesis by (simp add: then_h_def s1)
  qed
qed

lemma take_same_below_append:
  "same_below (length h) (h @ xs) h' \<Longrightarrow> take (length h) h' = h"
  by (simp add: same_below_def)

lemma detect_request_bundle_h_frame:
  "take (length h) (fst (detect_request_bundle_h h p ts te)) = h"
proof -
  let ?h2 = "h @ [ServiceBundles [], EndpointBundles []]"
  let ?l0 = "\<lparr>l_last_call_service = None, l_last_call_endpoint = None,
                        l_count_service = 1, l_count_endpoint = 1\<rparr>"
  have loop: "take (length h)
      (fst (fst (bundle_loop_h ts te (length h) (Suc (length h)) (?h2, ?l0) pl))) = h" for pl
    by (rule take_same_below_append [of h "[ServiceBundles [], EndpointBundles []]"])
      (rule bundle_loop_h_frame, simp_all)
  show ?thesis
  proof (cases "lookup ?h2 p")
    case None
    then show ?thesis by (simp add: detect_request_bundle_h_def alloc_def)
  next
    case (Some v)
    show ?thesis
    proof (cases v)
      case (Pipeline pl)
      obtain h3 l3 e3 where r: "bundle_loop_h ts te (length h) (Suc (length h)) (?h2, ?l0) pl
          = ((h3, l3), e3)"
        by (metis prod.collapse)
      with loop [of pl] have "take (length h) h3 = h" by simp
      then show ?thesis
        by (simp add: detect_request_bundle_h_def alloc_def Some Pipeline r split: option.splits)
    qed (simp_all add: detect_request_bundle_h_def alloc_def Some)
  qed
qed

subsection \<open>Frame: graph detectors\<close>

lemma then_h_frame:
  assumes "r = (h1, e)" and "same_below n h h1"
    and "\<And>h2. same_below n h1 (fst (k h1))"
  shows "same_below n h (fst (then_h r k))"
  using assms by (cases e) (auto simp: then_h_def intro: same_below_trans)

lemma frontend_step_h_frame:
  "n \<le> c \<Longrightarrow> n \<le> v \<Longrightarrow> same_below n h (fst (frontend_step_h D fs c v h node))"
  by (auto simp: frontend_step_h_def same_below_set_add same_below_refl
      split: sum.splits bool.splits)

lemma frontend_loop_h_frame:
  assumes "n \<le> c" and "n \<le> v"
  shows "same_below n h (fst (frontend_loop_h D fs c v h ns))"
proof (induction ns arbitrary: h)
  case Nil
  show ?case by (simp add: same_below_refl)
next
  case (Cons node ns)
  obtain h1 e1 where s1: "frontend_step_h D fs c v h node = (h1, e1)"
    by (metis prod.collapse)
  from frontend_step_h_frame [OF assms, of h D fs node] s1 have "same_below n h h1" by simp
  with Cons.IH [of h1] show ?case
    by (cases e1) (auto simp: then_h_def s1 intro: same_below_trans)
qed

lemma same_below_append_take:
  "same_below n (h @ xs) h' \<Longrightarrow> length h \<le> n \<Longrightarrow> take (length h) h' = h"
proof -
  assume a: "same_below n (h @ xs) h'" and b: "length h \<le> n"
  from a have "take n h' = take n (h @ xs)" by (simp add: same_below_def)
  then have "take (length h) (take n h') = take (length h) (take n (h @ xs))" by simp
  with b show ?thesis by (simp add: min_absorb1)
qed

lemma set_or_new_extends: "\<exists>xs. fst (set_or_new h x) = h @ xs"
  by (cases x) (simp_all add: set_or_new_def alloc_def)

lemma detect_frontend_integration_h_frame:
  "take (length h) (fst (detect_frontend_integration_h h G fs)) = h"
proof -
  obtain h0 r0 where s0: "set_or_new h fs = (h0, r0)" by (metis prod.collapse)
  with set_or_new_extends [of h fs] obtain xs where h0: "h0 = h @ xs" by auto
  have t: "take (length h) (h0 @ ys) = h" for ys by (simp add: h0)
  have t0: "take (length h) h0 = h" by (simp add: h0)
  let ?n = "length h0"
  have loop: "take (length h) (fst (frontend_loop_h D r0 (Suc ?n) (Suc (Suc ?n))
      (h0 @ [d, NodeSet {}, NodeSet {}]) ns)) = h" for D d ns
  proof -
    have "same_below (Suc ?n) (h0 @ [d, NodeSet {}, NodeSet {}])
        (fst (frontend_loop_h D r0 (Suc ?n) (Suc (Suc ?n)) (h0 @ [d, NodeSet {}, NodeSet {}]) ns))"
      by (rule frontend_loop_h_frame) simp_all
    then have "same_below (Suc ?n) (h @ (xs @ [d, NodeSet {}, NodeSet {}]))
        (fst (frontend_loop_h D r0 (Suc ?n) (Suc (Suc ?n)) (h0 @ [d, NodeSet {}, NodeSet {}]) ns))"
      by (simp add: h0)
    then show ?thesis by (rule same_below_append_take) (simp add: h0)
  qed
  show ?thesis
  proof (cases "lookup h0 G")
    case None
    then show ?thesis by (simp add: detect_frontend_integration_h_def s0 t0)
  next
    case (Some v)
    show ?thesis
    proof (cases v)
      case (MultiDiGraphObj g)
      obtain h4 e4 where r: "frontend_loop_h (DiGraph g) r0 (Suc ?n) (Suc (Suc ?n))
          (h0 @ [DiGraphObj (DiGraph g), NodeSet {}, NodeSet {}]) (nodes (DiGraph g)) = (h4, e4)"
        by (metis prod.collapse)
      with loop [of "DiGraph g" "DiGraphObj (DiGraph g)" "nodes (DiGraph g)"]
      have "take (length h) h4 = h" by simp
      then show ?thesis
        by (simp add: detect_frontend_integration_h_def s0 alloc_def Some MultiDiGraphObj r
            split: option.splits)
    qed (simp_all add: detect_frontend_integration_h_def s0 Some t0)
  qed
qed

lemma ihr_step_h_frame:
  assumes "n \<le> r_ihr_candidates R" and "n \<le> r_ihr_violators R"
    and "n \<le> r_database_call_violators R" and "n \<le> r_database_no_ihr_violators R"
  shows "same_below n h (fst (ihr_step_h D R h node))"
proof (cases "set_contains h (r_database_services R) node")
  case (Inl e)
  then show ?thesis by (simp add: ihr_step_h_def same_below_refl)
next
  case (Inr is_database)
  let ?zero = "out_degree D node = 0"
  let ?first = "if ?zero \<or> is_database
             then (case pred D node of
                     [p] \<Rightarrow>
                       then_h
                         (if length (succ D p) = 1
                          then pair_add (r_ihr_candidates R) (p, node) h
                          else pair_add (r_ihr_violators R) (p, node) h)
                         (set_discard (r_database_no_ihr_violators R) node)
                   | _ \<Rightarrow> (h, None))
             else (h, None)"
  have pairs: "same_below n h (fst (then_h (pair_add r x h)
                         (set_discard (r_database_no_ihr_violators R) node)))"
    if "n \<le> r" for r x
  proof (rule same_below_then_h)
    show "same_below n h (fst (pair_add r x h))"
      using that by (simp add: same_below_pair_add)
  next
    fix h1 assume "same_below n h h1"
    moreover have "same_below n h1 (fst (set_discard (r_database_no_ihr_violators R) node h1))"
      using assms by (simp add: same_below_set_discard)
    ultimately show "same_below n h (fst (set_discard (r_database_no_ihr_violators R) node h1))"
      by (rule same_below_trans)
  qed
  have first: "same_below n h (fst ?first)"
    using assms by (auto simp: pairs same_below_refl split: list.splits)
  have "same_below n h (fst (then_h ?first
            (\<lambda>h'. if \<not> ?zero \<and> is_database
                   then set_add (r_database_call_violators R) node h'
                   else (h', None))))"
  proof (rule same_below_then_h [OF first])
    fix h1 assume a: "same_below n h h1"
    have "same_below n h1 (fst (if \<not> ?zero \<and> is_database
                   then set_add (r_database_call_violators R) node h1
                   else (h1, None)))"
      using assms by (simp add: same_below_set_add same_below_refl)
    with a show "same_below n h (fst (if \<not> ?zero \<and> is_database
                   then set_add (r_database_call_violators R) node h1
                   else (h1, None)))"
      by (rule same_below_trans)
  qed
  then show ?thesis by (simp add: ihr_step_h_def Inr Let_def)
qed

lemma ihr_loop_h_frame:
  assumes "n \<le> r_ihr_candidates R" and "n \<le> r_ihr_violators R"
    and "n \<le> r_database_call_violators R" and "n \<le> r_database_no_ihr_violators R"
  shows "same_below n h (fst (ihr_loop_h D R h ns))"
proof (induction ns arbitrary: h)
  case Nil
  show ?case by (simp add: same_below_refl)
next
  case (Cons node ns)
  obtain h1 e1 where s1: "ihr_step_h D R h node = (h1, e1)"
    by (metis prod.collapse)
  from ihr_step_h_frame [OF assms, of h D node] s1 have "same_below n h h1" by simp
  with Cons.IH [of h1] show ?case
    by (cases e1) (auto simp: then_h_def s1 intro: same_below_trans)
qed

lemma detect_information_holder_resource_h_frame:
  "take (length h) (fst (detect_information_holder_resource_h h G db)) = h"
proof -
  obtain h0 r0 where s0: "set_or_new h db = (h0, r0)" by (metis prod.collapse)
  with set_or_new_extends [of h db] obtain xs where h0: "h0 = h @ xs" by auto
  have t: "take (length h) (h0 @ ys) = h" for ys by (simp add: h0)
  have t0: "take (length h) h0 = h" by (simp add: h0)
  let ?n = "length h0"
  show ?thesis
  proof (cases "lookup h0 G")
    case None
    then show ?thesis by (simp add: detect_information_holder_resource_h_def s0 t0)
  next
    case (Some v)
    show ?thesis
    proof (cases v)
      case (MultiDiGraphObj g)
      let ?h4 = "h0 @ [DiGraphObj (DiGraph g), PairSet {}, PairSet {}, NodeSet {}]"
      show ?thesis
      proof (cases "set_copy ?h4 r0")
        case (Inl e)
        then show ?thesis
          using t [of "[DiGraphObj (DiGraph g), PairSet {}, PairSet {}, NodeSet {}]"]
          by (simp add: detect_information_holder_resource_h_def s0 alloc_def Some
              MultiDiGraphObj)
      next
        case (Inr c)
        then obtain S where c:
          "c = (h0 @ [DiGraphObj (DiGraph g), PairSet {}, PairSet {}, NodeSet {}, NodeSet S],
                Suc (Suc (Suc (Suc ?n))))"
          by (auto simp: set_copy_def alloc_def split: option.splits obj.splits)
        let ?h5 = "h0 @ [DiGraphObj (DiGraph g), PairSet {}, PairSet {}, NodeSet {}, NodeSet S]"
        let ?R = "\<lparr>r_database_services = r0,
                        r_ihr_candidates = Suc ?n, r_ihr_violators = Suc (Suc ?n),
                        r_database_call_violators = Suc (Suc (Suc ?n)),
                        r_database_no_ihr_violators = Suc (Suc (Suc (Suc ?n)))\<rparr>"
        obtain h6 e6 where r: "ihr_loop_h (DiGraph g) ?R ?h5 (nodes (DiGraph g)) = (h6, e6)"
          by (metis prod.collapse)
        have "same_below (Suc ?n) ?h5 (fst (ihr_loop_h (DiGraph g) ?R ?h5 (nodes (DiGraph g))))"
          by (rule ihr_loop_h_frame) simp_all
        with r have "same_below (Suc ?n) ?h5 h6"
          by simp
        then have "same_below (Suc ?n)
            (h @ (xs @ [DiGraphObj (DiGraph g), PairSet {}, PairSet {}, NodeSet {}, NodeSet S])) h6"
          by (simp add: h0)
        then have "take (length h) h6 = h"
          by (rule same_below_append_take) (simp add: h0)
        then show ?thesis
          by (simp add: detect_information_holder_resource_h_def s0 alloc_def Some
              MultiDiGraphObj Inr c r split: option.splits)
      qed
    qed (simp_all add: detect_information_holder_resource_h_def s0 Some t0)
  qed
qed

lemma lookup_preserved:
  assumes "take (length h) h1 = h" and "lookup h r = Some v"
  shows "lookup h1 r = Some v"
proof -
  from assms(2) have r: "r < length h" and v: "h ! r = v"
    by (auto simp: lookup_def split: if_splits)
  from assms(1) have "length h \<le> length h1"
    by (metis length_take min.cobounded1)
  moreover from r have "take (length h) h1 ! r = h1 ! r" by simp
  ultimately show ?thesis using r v assms(1) by (simp add: lookup_def)
qed

subsection \<open>The heap detectors compute what the value-level detectors compute\<close>

lemma service_part_h_sim:
  assumes "bundle_rel bs be h l s"
  shows "case service_part ts s k of
           Inl e \<Rightarrow> snd (service_part_h ts bs k (h, l)) = Some e
         | Inr s' \<Rightarrow> \<exists>h' l'. service_part_h ts bs k (h, l) = ((h', l'), None)
                        \<and> bundle_rel bs be h' l' s'"
proof -
  from assms have ne: "bs \<noteq> be" and lt: "bs < length h"
    by (auto simp: bundle_rel_def dest: lookup_Some_less)
  with assms show ?thesis
    by (auto simp: service_part_def service_part_h_def bundle_rel_def then_h_def
        append_service_def lookup_update_same lookup_update_other
        split: option.splits)
qed

lemma endpoint_part_h_sim:
  assumes "bundle_rel bs be h l s"
  shows "case endpoint_part te s k of
           Inl e \<Rightarrow> snd (endpoint_part_h te be k (h, l)) = Some e
         | Inr s' \<Rightarrow> \<exists>h' l'. endpoint_part_h te be k (h, l) = ((h', l'), None)
                        \<and> bundle_rel bs be h' l' s'"
proof -
  from assms have ne: "bs \<noteq> be" and lt: "be < length h"
    by (auto simp: bundle_rel_def dest: lookup_Some_less)
  with assms show ?thesis
    by (auto simp: endpoint_part_def endpoint_part_h_def bundle_rel_def then_h_def
        append_endpoint_def lookup_update_same lookup_update_other
        split: option.splits)
qed

lemma bundle_step_h_sim:
  assumes "bundle_rel bs be h l s"
  shows "case bundle_step ts te s c of
           Inl e \<Rightarrow> snd (bundle_step_h ts te bs be (h, l) c) = Some e
         | Inr s' \<Rightarrow> \<exists>h' l'. bundle_step_h ts te bs be (h, l) c = ((h', l'), None)
                        \<and> bundle_rel bs be h' l' s'"
proof (cases "service_part ts s (service_key c)")
  case (Inl e)
  with service_part_h_sim [OF assms, of ts "service_key c"]
  have "snd (service_part_h ts bs (service_key c) (h, l)) = Some e" by simp
  then show ?thesis
    by (cases "service_part_h ts bs (service_key c) (h, l)")
      (simp add: bundle_step_def bundle_step_h_def then_h_def Inl)
next
  case (Inr s1)
  with service_part_h_sim [OF assms, of ts "service_key c"]
  obtain h1 l1 where h1: "service_part_h ts bs (service_key c) (h, l) = ((h1, l1), None)"
    and r1: "bundle_rel bs be h1 l1 s1" by auto
  from endpoint_part_h_sim [OF r1, of te "endpoint_key c"]
  show ?thesis
    by (auto simp: bundle_step_def bundle_step_h_def then_h_def Inr h1 split: sum.splits)
qed

lemma bundle_loop_h_sim:
  assumes "bundle_rel bs be h l s"
  shows "case bundle_loop ts te s cs of
           Inl e \<Rightarrow> snd (bundle_loop_h ts te bs be (h, l) cs) = Some e
         | Inr s' \<Rightarrow> \<exists>h' l'. bundle_loop_h ts te bs be (h, l) cs = ((h', l'), None)
                        \<and> bundle_rel bs be h' l' s'"
  using assms
proof (induction cs arbitrary: h l s)
  case Nil
  then show ?case by simp
next
  case (Cons c cs)
  show ?case
  proof (cases "bundle_step ts te s c")
    case (Inl e)
    with bundle_step_h_sim [OF Cons.prems, of ts te c]
    have "snd (bundle_step_h ts te bs be (h, l) c) = Some e" by simp
    then show ?thesis
      by (cases "bundle_step_h ts te bs be (h, l) c") (simp add: then_h_def Inl)
  next
    case (Inr s1)
    with bundle_step_h_sim [OF Cons.prems, of ts te c]
    obtain h1 l1 where h1: "bundle_step_h ts te bs be (h, l) c = ((h1, l1), None)"
      and r1: "bundle_rel bs be h1 l1 s1" by auto
    from Cons.IH [OF r1, of ] show ?thesis
      by (auto simp: then_h_def Inr h1 split: sum.splits)
  qed
qed

lemma detect_request_bundle_h_refines:
  assumes "lookup h p = Some (Pipeline pl)"
  shows "outcome2 (detect_request_bundle_h h p ts te) = bundle_objs (detect_request_bundle pl ts te)"
proof -
  let ?h2 = "h @ [ServiceBundles [], EndpointBundles []]"
  let ?l0 = "\<lparr>l_last_call_service = None, l_last_call_endpoint = None,
                        l_count_service = 1, l_count_endpoint = 1\<rparr>"
  let ?bs = "length h" and ?be = "Suc (length h)"
  from assms have p: "lookup ?h2 p = Some (Pipeline pl)"
    by (auto simp: lookup_def nth_append split: if_splits)
  have rel: "bundle_rel ?bs ?be ?h2 ?l0 bundle_init"
    by (simp add: bundle_rel_def bundle_init_def lookup_def nth_append)
  show ?thesis
  proof (cases "bundle_loop ts te bundle_init pl")
    case (Inl e)
    with bundle_loop_h_sim [OF rel, of ts te pl]
    have "snd (bundle_loop_h ts te ?bs ?be (?h2, ?l0) pl) = Some e" by simp
    then obtain h3 l3 where "bundle_loop_h ts te ?bs ?be (?h2, ?l0) pl = ((h3, l3), Some e)"
      by (metis prod.collapse)
    then show ?thesis
      by (simp add: detect_request_bundle_h_def detect_request_bundle_def alloc_def p Inl
          outcome2_def bundle_objs_def)
  next
    case (Inr s')
    with bundle_loop_h_sim [OF rel, of ts te pl]
    obtain h3 l3 where r: "bundle_loop_h ts te ?bs ?be (?h2, ?l0) pl = ((h3, l3), None)"
      and rel': "bundle_rel ?bs ?be h3 l3 s'" by auto
    then show ?thesis
      by (simp add: detect_request_bundle_h_def detect_request_bundle_def alloc_def p Inr
          outcome2_def bundle_objs_def bundle_rel_def)
  qed
qed

lemma set_or_new_read:
  assumes "read_set_arg h x = Some S" and "set_or_new h x = (h0, r0)"
  shows "lookup h0 r0 = Some (NodeSet (set_or_empty S))"
    and "\<And>r v. lookup h r = Some v \<Longrightarrow> lookup h0 r = Some v"
  using assms
  by (auto simp: read_set_arg_def set_or_new_def alloc_def set_or_empty_def lookup_append_old
      lookup_append_new split: option.splits obj.splits)

lemma frontend_step_h_sim:
  assumes "frontend_rel fs c v h S st"
  shows "\<exists>h'. frontend_step_h D fs c v h node = (h', None)
           \<and> frontend_rel fs c v h' S (frontend_step D S st node)"
proof -
  from assms have "c < length h" "v < length h"
    by (auto simp: frontend_rel_def dest: lookup_Some_less)
  with assms show ?thesis
    by (cases st)
      (auto simp: frontend_rel_def frontend_step_h_def frontend_step_def set_add_def
        set_contains_def lookup_update_same lookup_update_other)
qed

lemma frontend_loop_h_sim:
  assumes "frontend_rel fs c v h S st"
  shows "\<exists>h'. frontend_loop_h D fs c v h ns = (h', None)
           \<and> frontend_rel fs c v h' S (foldl (frontend_step D S) st ns)"
  using assms
proof (induction ns arbitrary: h st)
  case Nil
  then show ?case by simp
next
  case (Cons node ns)
  from frontend_step_h_sim [OF Cons.prems, of D node]
  obtain h1 where h1: "frontend_step_h D fs c v h node = (h1, None)"
    and r1: "frontend_rel fs c v h1 S (frontend_step D S st node)" by blast
  from Cons.IH [OF r1] show ?case by (simp add: then_h_def h1)
qed

lemma detect_frontend_integration_h_refines:
  assumes "lookup h G = Some (MultiDiGraphObj g)" and "read_set_arg h fs = Some S"
  shows "outcome2 (detect_frontend_integration_h h G fs) =
           Inr (Some (NodeSet (fst (detect_frontend_integration g S))),
                Some (NodeSet (snd (detect_frontend_integration g S))))"
proof -
  obtain h0 r0 where s0: "set_or_new h fs = (h0, r0)" by (metis prod.collapse)
  from set_or_new_read [OF assms(2) s0] assms(1)
  have r0: "lookup h0 r0 = Some (NodeSet (set_or_empty S))"
    and G: "lookup h0 G = Some (MultiDiGraphObj g)" by auto
  let ?n = "length h0"
  let ?h3 = "h0 @ [DiGraphObj (DiGraph g), NodeSet {}, NodeSet {}]"
  from r0 have lt: "r0 < ?n" by (rule lookup_Some_less)
  have rel: "frontend_rel r0 (Suc ?n) (Suc (Suc ?n)) ?h3 (set_or_empty S) ({}, {})"
    using r0 lt by (auto simp: frontend_rel_def lookup_def nth_append split: if_splits)
  from frontend_loop_h_sim [OF rel, of "DiGraph g" "nodes (DiGraph g)"]
  obtain h4 where h4: "frontend_loop_h (DiGraph g) r0 (Suc ?n) (Suc (Suc ?n)) ?h3
        (nodes (DiGraph g)) = (h4, None)"
    and rel4: "frontend_rel r0 (Suc ?n) (Suc (Suc ?n)) h4 (set_or_empty S)
        (foldl (frontend_step (DiGraph g) (set_or_empty S)) ({}, {}) (nodes (DiGraph g)))"
    by blast
  from rel4 show ?thesis
    by (simp add: detect_frontend_integration_h_def detect_frontend_integration_def s0 G
        alloc_def h4 outcome2_def frontend_rel_def Let_def)
qed

lemma ihr_step_h_sim:
  assumes "ihr_rel R h DB s"
  shows "\<exists>h'. ihr_step_h D R h node = (h', None) \<and> ihr_rel R h' DB (ihr_step D DB s node)"
proof -
  from assms have lt: "r_ihr_candidates R < length h" "r_ihr_violators R < length h"
    "r_database_call_violators R < length h" "r_database_no_ihr_violators R < length h"
    by (auto simp: ihr_rel_def dest: lookup_Some_less)
  with assms show ?thesis
    by (auto simp: ihr_rel_def ihr_step_h_def ihr_step_def set_add_def set_discard_def
        pair_add_def set_contains_def then_h_def Let_def lookup_update_same lookup_update_other
        split: list.splits)
qed

lemma ihr_loop_h_sim:
  assumes "ihr_rel R h DB s"
  shows "\<exists>h'. ihr_loop_h D R h ns = (h', None)
           \<and> ihr_rel R h' DB (foldl (ihr_step D DB) s ns)"
  using assms
proof (induction ns arbitrary: h s)
  case Nil
  then show ?case by simp
next
  case (Cons node ns)
  from ihr_step_h_sim [OF Cons.prems, of D node]
  obtain h1 where h1: "ihr_step_h D R h node = (h1, None)"
    and r1: "ihr_rel R h1 DB (ihr_step D DB s node)" by blast
  from Cons.IH [OF r1] show ?case by (simp add: then_h_def h1)
qed

lemma detect_information_holder_resource_h_refines:
  assumes "lookup h G = Some (MultiDiGraphObj g)" and "read_set_arg h db = Some S"
  shows "outcome4 (detect_information_holder_resource_h h G db) =
           (case detect_information_holder_resource g S of
              (c, v, dcv, dniv) \<Rightarrow>
                Inr (Some (PairSet c), Some (PairSet v), Some (NodeSet dcv), Some (NodeSet dniv)))"
proof -
  obtain h0 r0 where s0: "set_or_new h db = (h0, r0)" by (metis prod.collapse)
  from set_or_new_read [OF assms(2) s0] assms(1)
  have r0: "lookup h0 r0 = Some (NodeSet (set_or_empty S))"
    and G: "lookup h0 G = Some (MultiDiGraphObj g)" by auto
  let ?n = "length h0"
  let ?h5 = "h0 @ [DiGraphObj (DiGraph g), PairSet {}, PairSet {}, NodeSet {},
                   NodeSet (set_or_empty S)]"
  let ?R = "\<lparr>r_database_services = r0,
             r_ihr_candidates = Suc ?n, r_ihr_violators = Suc (Suc ?n),
             r_database_call_violators = Suc (Suc (Suc ?n)),
             r_database_no_ihr_violators = Suc (Suc (Suc (Suc ?n)))\<rparr>"
  let ?s0 = "\<lparr>ihr_candidates = {}, ihr_violators = {}, database_call_violators = {},
              database_no_ihr_violators = set_or_empty S\<rparr>"
  from r0 have lt: "r0 < ?n" by (rule lookup_Some_less)
  have copy: "set_copy (h0 @ [DiGraphObj (DiGraph g), PairSet {}, PairSet {}, NodeSet {}]) r0
      = Inr (?h5, Suc (Suc (Suc (Suc ?n))))"
    using r0 lt by (auto simp: set_copy_def alloc_def lookup_def nth_append split: if_splits)
  have rel: "ihr_rel ?R ?h5 (set_or_empty S) ?s0"
    using r0 lt by (auto simp: ihr_rel_def lookup_def nth_append split: if_splits)
  from ihr_loop_h_sim [OF rel, of "DiGraph g" "nodes (DiGraph g)"]
  obtain h6 where h6: "ihr_loop_h (DiGraph g) ?R ?h5 (nodes (DiGraph g)) = (h6, None)"
    and rel6: "ihr_rel ?R h6 (set_or_empty S)
        (foldl (ihr_step (DiGraph g) (set_or_empty S)) ?s0 (nodes (DiGraph g)))"
    by blast
  from rel6 show ?thesis
    by (simp add: detect_information_holder_resource_h_def detect_information_holder_resource_def
        s0 G alloc_def copy h6 outcome4_def ihr_rel_def Let_def)
qed

lemma read_set_arg_preserved:
  assumes "take (length h) h1 = h" and "read_set_arg h x = Some S"
  shows "read_set_arg h1 x = Some S"
proof (cases x)
  case None
  with assms(2) show ?thesis by (simp add: read_set_arg_def)
next
  case (Some r)
  with assms(2) obtain T where T: "lookup h r = Some (NodeSet T)" and S: "S = Some T"
    by (auto simp: read_set_arg_def split: option.splits obj.splits)
  from lookup_preserved [OF assms(1) T] S show ?thesis
    by (simp add: read_set_arg_def Some)
qed

subsection \<open>Claims about the caller's objects\<close>

text \<open>
  C8. None of the three detectors changes an object of its caller. Whatever object \<open>v\<close> a
  reference \<open>r\<close> pointed to before the call (the pipeline, the graph, the set of declared
  frontend services, the set of declared database services, or anything else), \<open>r\<close> points
  to the same \<open>v\<close> afterwards, also when the detector raises. Every write goes to an object
  the detector created itself: the result lists and sets, and the copy of
  \<open>database_services\<close>. That \<open>nx.DiGraph(G)\<close> builds a new graph and leaves \<open>G\<close> alone is
  the library's behaviour, taken as given.
\<close>

theorem detectors_leave_inputs_unchanged:
  assumes "lookup h r = Some v"
  shows "lookup (fst (detect_request_bundle_h h pipeline ts te)) r = Some v
       \<and> lookup (fst (detect_frontend_integration_h h G frontend_services_ref)) r = Some v
       \<and> lookup (fst (detect_information_holder_resource_h h G database_services_ref)) r = Some v"
proof (intro conjI)
  show "lookup (fst (detect_request_bundle_h h pipeline ts te)) r = Some v"
    by (rule lookup_preserved [OF detect_request_bundle_h_frame assms])
  show "lookup (fst (detect_frontend_integration_h h G frontend_services_ref)) r = Some v"
    by (rule lookup_preserved [OF detect_frontend_integration_h_frame assms])
  show "lookup (fst (detect_information_holder_resource_h h G database_services_ref)) r = Some v"
    by (rule lookup_preserved [OF detect_information_holder_resource_h_frame assms])
qed

theorem detectors_leave_inputs_unchanged_witness:
  "lookup (fst (detect_information_holder_resource_h
             [MultiDiGraphObj ihr_example, NodeSet {''S'', ''Z''}] 0 (Some 1))) 1
     = Some (NodeSet {''S'', ''Z''})
   \<and> lookup (fst (detect_frontend_integration_h
             [MultiDiGraphObj ihr_example, NodeSet {''S'', ''Z''}] 0 (Some 1))) 1
     = Some (NodeSet {''S'', ''Z''})
   \<and> lookup (fst (detect_request_bundle_h
             [MultiDiGraphObj ihr_example, NodeSet {''S'', ''Z''}] 0 2 2)) 1
     = Some (NodeSet {''S'', ''Z''})"
proof -
  have "lookup [MultiDiGraphObj ihr_example, NodeSet {''S'', ''Z''}] 1
          = Some (NodeSet {''S'', ''Z''})"
    by (simp add: lookup_def)
  from detectors_leave_inputs_unchanged [OF this, of 0 2 2 0 "Some 1" "Some 1"]
  show ?thesis by simp
qed

text \<open>
  C9. Calling a detector twice on the same, well-typed arguments gives the same outcome:
  the second call, run on the heap the first call left behind, raises the same error or
  returns objects with the same contents as the first (lists equal in order, sets equal as
  sets). The references returned differ, since every call creates its own result objects.
\<close>

theorem detectors_idempotent:
  assumes "lookup h pipeline = Some (Pipeline pl)"
    and "lookup h G = Some (MultiDiGraphObj g)"
    and "read_set_arg h frontend_services_ref = Some F"
    and "read_set_arg h database_services_ref = Some B"
  shows "outcome2 (detect_request_bundle_h (fst (detect_request_bundle_h h pipeline ts te))
                     pipeline ts te)
           = outcome2 (detect_request_bundle_h h pipeline ts te)
       \<and> outcome2 (detect_frontend_integration_h
                     (fst (detect_frontend_integration_h h G frontend_services_ref))
                     G frontend_services_ref)
           = outcome2 (detect_frontend_integration_h h G frontend_services_ref)
       \<and> outcome4 (detect_information_holder_resource_h
                     (fst (detect_information_holder_resource_h h G database_services_ref))
                     G database_services_ref)
           = outcome4 (detect_information_holder_resource_h h G database_services_ref)"
proof (intro conjI)
  let ?h1 = "fst (detect_request_bundle_h h pipeline ts te)"
  have "lookup ?h1 pipeline = Some (Pipeline pl)"
    by (rule lookup_preserved [OF detect_request_bundle_h_frame assms(1)])
  then show "outcome2 (detect_request_bundle_h ?h1 pipeline ts te)
           = outcome2 (detect_request_bundle_h h pipeline ts te)"
    by (simp add: detect_request_bundle_h_refines assms(1))
next
  let ?h1 = "fst (detect_frontend_integration_h h G frontend_services_ref)"
  have "lookup ?h1 G = Some (MultiDiGraphObj g)"
    by (rule lookup_preserved [OF detect_frontend_integration_h_frame assms(2)])
  moreover have "read_set_arg ?h1 frontend_services_ref = Some F"
    by (rule read_set_arg_preserved [OF detect_frontend_integration_h_frame assms(3)])
  ultimately show "outcome2 (detect_frontend_integration_h ?h1 G frontend_services_ref)
           = outcome2 (detect_frontend_integration_h h G frontend_services_ref)"
    using assms(2,3) by (simp add: detect_frontend_integration_h_refines)
next
  let ?h1 = "fst (detect_information_holder_resource_h h G database_services_ref)"
  have "lookup ?h1 G = Some (MultiDiGraphObj g)"
    by (rule lookup_preserved [OF detect_information_holder_resource_h_frame assms(2)])
  moreover have "read_set_arg ?h1 database_services_ref = Some B"
    by (rule read_set_arg_preserved [OF detect_information_holder_resource_h_frame assms(4)])
  ultimately show "outcome4 (detect_information_holder_resource_h ?h1 G database_services_ref)
           = outcome4 (detect_information_holder_resource_h h G database_services_ref)"
    using assms(2,4) by (simp add: detect_information_holder_resource_h_refines)
qed

theorem detectors_idempotent_witness:
  "outcome2 (detect_request_bundle_h
      (fst (detect_request_bundle_h
         [Pipeline [(0, ''A'', ''B'', ''e''), (1, ''A'', ''B'', ''e''), (2, ''C'', ''D'', ''f'')],
          MultiDiGraphObj ihr_example, NodeSet {''S'', ''Z''}] 0 2 2)) 0 2 2)
     = outcome2 (detect_request_bundle_h
         [Pipeline [(0, ''A'', ''B'', ''e''), (1, ''A'', ''B'', ''e''), (2, ''C'', ''D'', ''f'')],
          MultiDiGraphObj ihr_example, NodeSet {''S'', ''Z''}] 0 2 2)
   \<and> outcome2 (detect_frontend_integration_h
      (fst (detect_frontend_integration_h
         [Pipeline [(0, ''A'', ''B'', ''e''), (1, ''A'', ''B'', ''e''), (2, ''C'', ''D'', ''f'')],
          MultiDiGraphObj ihr_example, NodeSet {''S'', ''Z''}] 1 None)) 1 None)
     = outcome2 (detect_frontend_integration_h
         [Pipeline [(0, ''A'', ''B'', ''e''), (1, ''A'', ''B'', ''e''), (2, ''C'', ''D'', ''f'')],
          MultiDiGraphObj ihr_example, NodeSet {''S'', ''Z''}] 1 None)
   \<and> outcome4 (detect_information_holder_resource_h
      (fst (detect_information_holder_resource_h
         [Pipeline [(0, ''A'', ''B'', ''e''), (1, ''A'', ''B'', ''e''), (2, ''C'', ''D'', ''f'')],
          MultiDiGraphObj ihr_example, NodeSet {''S'', ''Z''}] 1 (Some 2))) 1 (Some 2))
     = outcome4 (detect_information_holder_resource_h
         [Pipeline [(0, ''A'', ''B'', ''e''), (1, ''A'', ''B'', ''e''), (2, ''C'', ''D'', ''f'')],
          MultiDiGraphObj ihr_example, NodeSet {''S'', ''Z''}] 1 (Some 2))"
proof -
  let ?h = "[Pipeline [(0, ''A'', ''B'', ''e''), (1, ''A'', ''B'', ''e''), (2, ''C'', ''D'', ''f'')],
          MultiDiGraphObj ihr_example, NodeSet {''S'', ''Z''}]"
  have p: "lookup ?h 0
      = Some (Pipeline [(0, ''A'', ''B'', ''e''), (1, ''A'', ''B'', ''e''), (2, ''C'', ''D'', ''f'')])"
    by (simp add: lookup_def)
  have g: "lookup ?h 1 = Some (MultiDiGraphObj ihr_example)"
    by (simp add: lookup_def)
  have f: "read_set_arg ?h None = Some None"
    by (simp add: read_set_arg_def)
  have d: "read_set_arg ?h (Some 2) = Some (Some {''S'', ''Z''})"
    by (simp add: read_set_arg_def lookup_def)
  show ?thesis
    by (rule detectors_idempotent [OF p g f d])
qed

end
